theory Spec2Isabelle
  imports Main "HOL-Library.Sublist"
begin

section \<open>The handler pipeline of go-netty (pipeline.go)\<close>

subsection \<open>Handlers and their capabilities\<close>

text \<open>
  A \<^verbatim>\<open>Handler\<close> is an empty interface; what the pipeline looks at is which of the six
  handler interfaces the dynamic type of the value satisfies (the type switch of
  \<^verbatim>\<open>checkHandler\<close>) and, for the error message, the name of that type (\<^verbatim>\<open>%T\<close>).
  A nil handler is the value with type name \<^verbatim>\<open><nil>\<close> and no capability.
\<close>

datatype capability =
  ActiveHandler | InboundHandler | OutboundHandler
  | ExceptionHandler | InactiveHandler | EventHandler

record handler =
  type_name :: string
  implements :: "capability set"

text \<open>
  Modelled from the spec: the declarations of the sentinel handler types \<^verbatim>\<open>headHandler\<close>
  and \<^verbatim>\<open>tailHandler\<close> are not in src/. The spec gives the head sentinel the outbound
  role (it turns pipeline-level writes into transport output) and the tail sentinel the
  terminal role for the events that travel from head to tail.
\<close>

definition headHandler :: handler where
  "headHandler = \<lparr>type_name = ''*netty.headHandler'', implements = {OutboundHandler}\<rparr>"

definition tailHandler :: handler where
  "tailHandler = \<lparr>type_name = ''*netty.tailHandler'',
     implements = {ActiveHandler, InboundHandler, ExceptionHandler, InactiveHandler, EventHandler}\<rparr>"

subsection \<open>The store of handler contexts and the pipeline\<close>

text \<open>
  A \<^verbatim>\<open>*handlerContext\<close> is an address into the store of the contexts that the pipeline has
  allocated; nil is \<open>None\<close>. The store is a list, an address is an index, and
  \<^verbatim>\<open>&handlerContext{...}\<close> appends a cell, so that a new address is always fresh. The
  \<^verbatim>\<open>pipeline\<close> field of a context always points to the pipeline that allocated it, which is
  the pipeline whose store holds the cell, and is not repeated in the cell.
\<close>

type_synonym ref = nat

record handlerContext =
  handler :: handler
  prev :: "ref option"
  "next" :: "ref option"

type_synonym channel = nat

text \<open>
  \<^verbatim>\<open>head\<close> and \<^verbatim>\<open>tail\<close> are assigned once, by \<^verbatim>\<open>NewPipelineWith\<close>, and never again; they are
  addresses. \<^verbatim>\<open>size\<close> is a Go \<^verbatim>\<open>int\<close>: it counts allocated contexts, so that it stays far
  below \<open>2^63\<close> and is modelled by an unbounded integer.
\<close>

record pipeline =
  nodes :: "handlerContext list"
  head :: ref
  tail :: ref
  channel :: "channel option"
  size :: int

text \<open>
  A panic is a value. \<^verbatim>\<open>UnrecognizedHandler i t\<close> stands for the error
  \<^verbatim>\<open>"unrecognized Handler: %d:%T"\<close> with index \<open>i\<close> and type \<open>t\<close>, \<^verbatim>\<open>InvalidPosition n\<close> for
  \<^verbatim>\<open>"invalid position: %d"\<close>, \<^verbatim>\<open>AlreadyAttached\<close> for \<^verbatim>\<open>"already attached channel"\<close>; the
  first three are the configuration errors. \<^verbatim>\<open>NilDereference\<close> is the runtime panic of Go
  for a field access or a method call through nil.
\<close>

datatype panic =
  UnrecognizedHandler nat string
  | InvalidPosition int
  | AlreadyAttached
  | NilDereference

fun configuration_error :: "panic \<Rightarrow> bool" where
  "configuration_error (UnrecognizedHandler i t) = True"
| "configuration_error (InvalidPosition n) = True"
| "configuration_error AlreadyAttached = True"
| "configuration_error NilDereference = False"

text \<open>
  A method that mutates the pipeline returns \<open>Inr\<close> of the pipeline it leaves, or \<open>Inl\<close>
  of the panic together with the pipeline as it is at the moment of the panic.
\<close>

type_synonym outcome = "(panic \<times> pipeline) + pipeline"

fun state_of :: "outcome \<Rightarrow> pipeline" where
  "state_of (Inl (e, p)) = p"
| "state_of (Inr p) = p"

text \<open>
  Reading a field through a pointer: nil panics. An address outside the store does not
  exist in Go; the model panics there too, so that no read is left unspecified.
\<close>

definition load :: "pipeline \<Rightarrow> ref option \<Rightarrow> panic + handlerContext" where
  "load p r =
     (case r of
        None \<Rightarrow> Inl NilDereference
      | Some a \<Rightarrow> if a < length (nodes p) then Inr (nodes p ! a) else Inl NilDereference)"

definition alloc :: "handlerContext \<Rightarrow> pipeline \<Rightarrow> ref \<times> pipeline" where
  "alloc c p = (length (nodes p), p\<lparr>nodes := nodes p @ [c]\<rparr>)"

definition set_next :: "ref \<Rightarrow> ref option \<Rightarrow> pipeline \<Rightarrow> pipeline" where
  "set_next a v p = p\<lparr>nodes := (nodes p)[a := (nodes p ! a)\<lparr>next := v\<rparr>]\<rparr>"

definition set_prev :: "ref \<Rightarrow> ref option \<Rightarrow> pipeline \<Rightarrow> pipeline" where
  "set_prev a v p = p\<lparr>nodes := (nodes p)[a := (nodes p ! a)\<lparr>prev := v\<rparr>]\<rparr>"

subsection \<open>NewPipelineWith\<close>

definition NewPipelineWith :: pipeline where
  "NewPipelineWith =
     \<lparr>nodes = [\<lparr>handler = headHandler, prev = None, next = Some 1\<rparr>,
               \<lparr>handler = tailHandler, prev = Some 0, next = None\<rparr>],
      head = 0, tail = 1, channel = None, size = 2\<rparr>"

definition Size :: "pipeline \<Rightarrow> int" where
  "Size p = size p"

definition Channel :: "pipeline \<Rightarrow> channel option" where
  "Channel p = channel p"

subsection \<open>checkHandler\<close>

text \<open>
  Modelled from the spec: \<^verbatim>\<open>utils.Assert\<close> and \<^verbatim>\<open>utils.AssertIf\<close> are not in src/. By the
  spec a failed check is a configuration error raised at once at the call: \<^verbatim>\<open>Assert err\<close>
  panics with a non-nil \<open>err\<close>, \<^verbatim>\<open>AssertIf c msg\<close> panics with \<open>msg\<close> when \<open>c\<close> holds.
\<close>

definition Assert :: "panic option \<Rightarrow> pipeline \<Rightarrow> outcome" where
  "Assert err p = (case err of None \<Rightarrow> Inr p | Some e \<Rightarrow> Inl (e, p))"

definition AssertIf :: "bool \<Rightarrow> panic \<Rightarrow> pipeline \<Rightarrow> outcome" where
  "AssertIf c e p = (if c then Inl (e, p) else Inr p)"

text \<open>The type switch: the first of the six cases that matches; none is the default.\<close>

definition recognized :: "handler \<Rightarrow> bool" where
  "recognized h =
     (if ActiveHandler \<in> implements h then True
      else if InboundHandler \<in> implements h then True
      else if OutboundHandler \<in> implements h then True
      else if ExceptionHandler \<in> implements h then True
      else if InactiveHandler \<in> implements h then True
      else if EventHandler \<in> implements h then True
      else False)"

fun checkHandler_from :: "nat \<Rightarrow> handler list \<Rightarrow> pipeline \<Rightarrow> outcome" where
  "checkHandler_from index [] p = Inr p"
| "checkHandler_from index (h # hs) p =
     (case Assert (if recognized h then None
                   else Some (UnrecognizedHandler index (type_name h))) p of
        Inl e \<Rightarrow> Inl e
      | Inr p' \<Rightarrow> checkHandler_from (Suc index) hs p')"

definition checkHandler :: "handler list \<Rightarrow> pipeline \<Rightarrow> outcome" where
  "checkHandler hs p = checkHandler_from 0 hs p"

subsection \<open>addFirst, addLast\<close>

text \<open>Assignments through a pointer, \<^verbatim>\<open>x.next = v\<close> and \<^verbatim>\<open>x.prev = v\<close>: nil panics.\<close>

definition write_next :: "ref option \<Rightarrow> ref option \<Rightarrow> pipeline \<Rightarrow> outcome" where
  "write_next r v p =
     (case r of
        None \<Rightarrow> Inl (NilDereference, p)
      | Some a \<Rightarrow> if a < length (nodes p) then Inr (set_next a v p)
                  else Inl (NilDereference, p))"

definition write_prev :: "ref option \<Rightarrow> ref option \<Rightarrow> pipeline \<Rightarrow> outcome" where
  "write_prev r v p =
     (case r of
        None \<Rightarrow> Inl (NilDereference, p)
      | Some a \<Rightarrow> if a < length (nodes p) then Inr (set_prev a v p)
                  else Inl (NilDereference, p))"

text \<open>
  The body shared, statement by statement, by \<^verbatim>\<open>addFirst\<close> (with \<open>cur\<close> the head) and by
  the second loop of \<^verbatim>\<open>AddHandler\<close>:
  \<^verbatim>\<open>oldNext := cur.next; cur.next = &handlerContext{handler: h, prev: cur, next: oldNext};\<close>
  \<^verbatim>\<open>oldNext.prev = cur.next; p.size++\<close>. It returns the pipeline and the value of \<^verbatim>\<open>cur.next\<close>.
\<close>

definition insert_after :: "ref option \<Rightarrow> handler \<Rightarrow> pipeline \<Rightarrow> (panic \<times> pipeline) + (ref option \<times> pipeline)" where
  "insert_after cur h p =
     (case load p cur of
        Inl e \<Rightarrow> Inl (e, p)
      | Inr cur_ctx \<Rightarrow>
          (case alloc \<lparr>handler = h, prev = cur, next = next cur_ctx\<rparr> p of
             (new, p1) \<Rightarrow>
               (case write_next cur (Some new) p1 of
                  Inl e \<Rightarrow> Inl e
                | Inr p2 \<Rightarrow>
                    (case load p2 cur of
                       Inl e \<Rightarrow> Inl (e, p2)
                     | Inr cur_ctx' \<Rightarrow>
                         (case write_prev (next cur_ctx) (next cur_ctx') p2 of
                            Inl e \<Rightarrow> Inl e
                          | Inr p3 \<Rightarrow> Inr (next cur_ctx', p3\<lparr>size := size p3 + 1\<rparr>))))))"

definition addFirst :: "handler \<Rightarrow> pipeline \<Rightarrow> outcome" where
  "addFirst h p =
     (case insert_after (Some (head p)) h p of
        Inl e \<Rightarrow> Inl e
      | Inr (new, p') \<Rightarrow> Inr p')"

text \<open>
  \<^verbatim>\<open>oldPrev := p.tail.prev; p.tail.prev = &handlerContext{handler: h, prev: oldPrev, next: p.tail};\<close>
  \<^verbatim>\<open>oldPrev.next = p.tail.prev; p.size++\<close>
\<close>

definition addLast :: "handler \<Rightarrow> pipeline \<Rightarrow> outcome" where
  "addLast h p =
     (case load p (Some (tail p)) of
        Inl e \<Rightarrow> Inl (e, p)
      | Inr tail_ctx \<Rightarrow>
          (case alloc \<lparr>handler = h, prev = prev tail_ctx, next = Some (tail p)\<rparr> p of
             (new, p1) \<Rightarrow>
               (case write_prev (Some (tail p)) (Some new) p1 of
                  Inl e \<Rightarrow> Inl e
                | Inr p2 \<Rightarrow>
                    (case load p2 (Some (tail p)) of
                       Inl e \<Rightarrow> Inl (e, p2)
                     | Inr tail_ctx' \<Rightarrow>
                         (case write_next (prev tail_ctx) (prev tail_ctx') p2 of
                            Inl e \<Rightarrow> Inl e
                          | Inr p3 \<Rightarrow> Inr (p3\<lparr>size := size p3 + 1\<rparr>))))))"

subsection \<open>AddFirst, AddLast, AddHandler\<close>

fun AddFirst_loop :: "handler list \<Rightarrow> pipeline \<Rightarrow> outcome" where
  "AddFirst_loop [] p = Inr p"
| "AddFirst_loop (h # hs) p =
     (case addFirst h p of Inl e \<Rightarrow> Inl e | Inr p' \<Rightarrow> AddFirst_loop hs p')"

definition AddFirst :: "handler list \<Rightarrow> pipeline \<Rightarrow> outcome" where
  "AddFirst handlers p =
     (case checkHandler handlers p of
        Inl e \<Rightarrow> Inl e
      | Inr p' \<Rightarrow> AddFirst_loop handlers p')"

fun AddLast_loop :: "handler list \<Rightarrow> pipeline \<Rightarrow> outcome" where
  "AddLast_loop [] p = Inr p"
| "AddLast_loop (h # hs) p =
     (case addLast h p of Inl e \<Rightarrow> Inl e | Inr p' \<Rightarrow> AddLast_loop hs p')"

definition AddLast :: "handler list \<Rightarrow> pipeline \<Rightarrow> outcome" where
  "AddLast handlers p =
     (case checkHandler handlers p of
        Inl e \<Rightarrow> Inl e
      | Inr p' \<Rightarrow> AddLast_loop handlers p')"

text \<open>
  The loop \<^verbatim>\<open>for i := 0; i < position; i++ { curNode = curNode.next }\<close> of \<^verbatim>\<open>AddHandler\<close> and
  of \<^verbatim>\<open>ContextAt\<close>. It does not change the pipeline.
\<close>

function forward :: "int \<Rightarrow> int \<Rightarrow> ref option \<Rightarrow> pipeline \<Rightarrow> panic + ref option" where
  "forward i position curNode p =
     (if i < position then
        (case load p curNode of
           Inl e \<Rightarrow> Inl e
         | Inr c \<Rightarrow> forward (i + 1) position (next c) p)
      else Inr curNode)"
  by pat_completeness auto
termination
  by (relation "measure (\<lambda>(i, position, curNode, p). nat (position - i))") auto

declare forward.simps [simp del]

text \<open>
  The second loop of \<^verbatim>\<open>AddHandler\<close>, \<^verbatim>\<open>for _, h := range handlers { ...; curNode = curNode.next; p.size++ }\<close>.
\<close>

fun AddHandler_loop :: "handler list \<Rightarrow> ref option \<Rightarrow> pipeline \<Rightarrow> outcome" where
  "AddHandler_loop [] curNode p = Inr p"
| "AddHandler_loop (h # hs) curNode p =
     (case insert_after curNode h p of
        Inl e \<Rightarrow> Inl e
      | Inr (curNode', p') \<Rightarrow> AddHandler_loop hs curNode' p')"

text \<open>
  \<^verbatim>\<open>checkHandler(handlers...)\<close>, then \<^verbatim>\<open>utils.AssertIf(position >= p.size, "invalid position: %d", position)\<close>,
  then \<^verbatim>\<open>if -1 == position || position == p.size-1 { return p.AddLast(handlers...) }\<close>, then the
  two loops.
\<close>

definition AddHandler :: "int \<Rightarrow> handler list \<Rightarrow> pipeline \<Rightarrow> outcome" where
  "AddHandler position handlers p =
     (case checkHandler handlers p of
        Inl e \<Rightarrow> Inl e
      | Inr p1 \<Rightarrow>
          (case AssertIf (position \<ge> size p1) (InvalidPosition position) p1 of
             Inl e \<Rightarrow> Inl e
           | Inr p2 \<Rightarrow>
               if -1 = position \<or> position = size p2 - 1 then AddLast handlers p2
               else
                 (case forward 0 position (Some (head p2)) p2 of
                    Inl e \<Rightarrow> Inl (e, p2)
                  | Inr curNode \<Rightarrow> AddHandler_loop handlers curNode p2)))"

subsection \<open>ContextAt\<close>

text \<open>
  \<^verbatim>\<open>if -1 == position || position >= p.size { return nil }\<close>, then the loop from the head. The
  result is the context found, or \<open>None\<close> for the nil result.
\<close>

definition ContextAt :: "int \<Rightarrow> pipeline \<Rightarrow> panic + ref option" where
  "ContextAt position p =
     (if -1 = position \<or> position \<ge> size p then Inr None
      else forward 0 position (Some (head p)) p)"

text \<open>The handler held by the context that \<^verbatim>\<open>ContextAt\<close> returns.\<close>

definition handler_at :: "int \<Rightarrow> pipeline \<Rightarrow> handler option" where
  "handler_at position p =
     (case ContextAt position p of
        Inl e \<Rightarrow> None
      | Inr r \<Rightarrow> (case load p r of Inl e \<Rightarrow> None | Inr c \<Rightarrow> Some (handler c)))"

subsection \<open>ServeChannel\<close>

text \<open>
  Modelled from the spec: the method \<^verbatim>\<open>serveChannel\<close> of the channel is not in src/. By the
  spec it instructs the channel to begin serving and belongs to the Channel collaborator;
  the model records the call, in the list of the channels told to serve so far. A call
  through a nil channel panics.
\<close>

text \<open>
  \<^verbatim>\<open>utils.AssertIf(nil != p.channel, "already attached channel"); p.channel = channel; p.channel.serveChannel()\<close>
\<close>

definition ServeChannel :: "channel option \<Rightarrow> pipeline \<Rightarrow> channel list \<Rightarrow> (panic \<times> pipeline \<times> channel list) + (pipeline \<times> channel list)" where
  "ServeChannel ch p served =
     (case AssertIf (None \<noteq> channel p) AlreadyAttached p of
        Inl (e, p') \<Rightarrow> Inl (e, p', served)
      | Inr p1 \<Rightarrow>
          (case channel (p1\<lparr>channel := ch\<rparr>) of
             None \<Rightarrow> Inl (NilDereference, p1\<lparr>channel := ch\<rparr>, served)
           | Some c \<Rightarrow> Inr (p1\<lparr>channel := ch\<rparr>, served @ [c])))"

subsection \<open>FireChannelRead, FireChannelWrite\<close>

text \<open>
  What a handler does with a message it is invoked on is application logic: \<open>None\<close> when
  it stops the propagation, \<open>Some m'\<close> when it passes \<open>m'\<close> on to the next context in the
  direction of the event.
\<close>

type_synonym 'm logic = "handler \<Rightarrow> 'm \<Rightarrow> 'm option"

text \<open>
  Modelled from the spec: the methods \<^verbatim>\<open>HandleRead\<close> and \<^verbatim>\<open>HandleWrite\<close> of \<^verbatim>\<open>handlerContext\<close> are
  not in src/. By the spec a context that is visited for an event invokes its handler if
  the handler declares the matching capability, and the handler may stop the propagation
  or forward a payload; a handler without the capability is skipped and the context
  forwards to the next context in the current direction. \<open>visit\<close> returns the contexts
  visited, in the order of the visits, after those of \<open>seen\<close>; it is \<open>None\<close> when the
  traversal never ends.
\<close>

partial_function (option) visit :: "capability \<Rightarrow> (handlerContext \<Rightarrow> ref option) \<Rightarrow> 'm logic \<Rightarrow> pipeline \<Rightarrow> ref option \<Rightarrow> 'm \<Rightarrow> ref list \<Rightarrow> ref list option" where
  "visit cap dir lg p cur m seen =
     (case cur of
        None \<Rightarrow> Some seen
      | Some r \<Rightarrow>
          (case load p (Some r) of
             Inl e \<Rightarrow> Some seen
           | Inr c \<Rightarrow>
               if cap \<in> implements (handler c) then
                 (case lg (handler c) m of
                    None \<Rightarrow> Some (seen @ [r])
                  | Some m' \<Rightarrow> visit cap dir lg p (dir c) m' (seen @ [r]))
               else visit cap dir lg p (dir c) m (seen @ [r])))"

declare visit.simps [code]

definition HandleRead :: "'m logic \<Rightarrow> pipeline \<Rightarrow> ref \<Rightarrow> 'm \<Rightarrow> ref list option" where
  "HandleRead lg p r message = visit InboundHandler next lg p (Some r) message []"

definition HandleWrite :: "'m logic \<Rightarrow> pipeline \<Rightarrow> ref \<Rightarrow> 'm \<Rightarrow> ref list option" where
  "HandleWrite lg p r message = visit OutboundHandler prev lg p (Some r) message []"

definition FireChannelRead :: "'m logic \<Rightarrow> pipeline \<Rightarrow> 'm \<Rightarrow> ref list option" where
  "FireChannelRead lg p message = HandleRead lg p (head p) message"

definition FireChannelWrite :: "'m logic \<Rightarrow> pipeline \<Rightarrow> 'm \<Rightarrow> ref list option" where
  "FireChannelWrite lg p message = HandleWrite lg p (tail p) message"

text \<open>
  \<open>forwards cap lg h\<close>: the handler \<open>h\<close>, if it is invoked for the events of \<open>cap\<close>, passes
  every message on.
\<close>

definition forwards :: "capability \<Rightarrow> 'm logic \<Rightarrow> handler \<Rightarrow> bool" where
  "forwards cap lg h \<longleftrightarrow> (cap \<in> implements h \<longrightarrow> (\<forall>m. lg h m \<noteq> None))"

text \<open>An instrumented handler records the visit and passes the message on unchanged.\<close>

definition instrumented :: "'m logic" where
  "instrumented h m = Some m"

section \<open>Exceptions (exception.go)\<close>

text \<open>
  A value of the interface \<^verbatim>\<open>error\<close> that is not an \<^verbatim>\<open>Exception\<close>, by its dynamic type and
  its message.
\<close>

datatype go_error = GoError (dynamic_type: string) (error_text: string)

type_synonym byte = nat

text \<open>The struct \<^verbatim>\<open>exception\<close>.\<close>

record exception =
  error :: go_error
  stack :: "byte list"

text \<open>
  A non-nil value of the interface \<^verbatim>\<open>Exception\<close>: the struct of this package, or a value
  of another type with the four methods, given by the name of that type.
\<close>

datatype Exception = Wrapped exception | Foreign string

text \<open>
  A value of \<^verbatim>\<open>interface{}\<close>, by the case of the type switch of \<^verbatim>\<open>AsException\<close> that it
  takes: nil, an \<^verbatim>\<open>Exception\<close>, an \<^verbatim>\<open>error\<close> that is not an \<^verbatim>\<open>Exception\<close>, or anything else,
  given by its rendering under \<^verbatim>\<open>%v\<close>.
\<close>

datatype any = NilValue | AnException Exception | AnError go_error | Other string

text \<open>\<^verbatim>\<open>fmt.Errorf("%v", e)\<close>, for \<open>e\<close> rendered as \<open>v\<close>.\<close>

definition Errorf_v :: "string \<Rightarrow> go_error" where
  "Errorf_v v = GoError ''*errors.errorString'' v"

fun AsException :: "any \<Rightarrow> byte list \<Rightarrow> Exception option" where
  "AsException NilValue st = None"
| "AsException (AnException err) st = Some err"
| "AsException (AnError err) st = Some (Wrapped \<lparr>error = err, stack = st\<rparr>)"
| "AsException (Other v) st = Some (Wrapped \<lparr>error = Errorf_v v, stack = st\<rparr>)"

text \<open>
  Passing the result of \<^verbatim>\<open>AsException\<close> where an \<^verbatim>\<open>interface{}\<close> is expected: the nil
  \<^verbatim>\<open>Exception\<close> becomes the nil \<^verbatim>\<open>interface{}\<close>.
\<close>

fun as_any :: "Exception option \<Rightarrow> any" where
  "as_any None = NilValue"
| "as_any (Some x) = AnException x"

section \<open>The listener (bootstrap.go)\<close>

text \<open>
  Acceptors, transports and parsed options are opaque here and stand as numbers. Of the
  struct \<^verbatim>\<open>listener\<close> the fields \<^verbatim>\<open>bs\<close> and \<^verbatim>\<open>option\<close> are only passed on to the collaborators
  of \<^verbatim>\<open>Sync\<close>, which are given below by what they return.
\<close>

type_synonym acceptor = nat
type_synonym transport = nat
type_synonym options = nat

record listener =
  url :: string
  options :: "options option"
  acceptor :: "acceptor option"

text \<open>
  What \<^verbatim>\<open>Accept\<close> returns: an error, or a transport together with what the listener then
  finds: whether the context of the bootstrap is done, and what closing the transport
  would return.
\<close>

datatype accepted = AcceptError go_error | Accepted transport bool "go_error option"

text \<open>
  The collaborators of \<^verbatim>\<open>Sync\<close>, by what they return: \<^verbatim>\<open>transport.ParseOptions\<close> for the url
  and the options of the listener (it returns the options also with an error),
  \<^verbatim>\<open>transportFactory.Listen\<close>, and the successive calls of \<^verbatim>\<open>Accept\<close>. After the last of
  those, \<^verbatim>\<open>Accept\<close> blocks for ever.
\<close>

record world =
  ParseOptions :: "options \<times> go_error option"
  Listen :: "acceptor option \<times> go_error option"
  Accepts :: "accepted list"

datatype call =
  CallParseOptions | CallListen | CallAccept
  | CallServeTransport transport | CallClose transport

text \<open>\<^verbatim>\<open>Sync\<close> returns an error or nil, panics, or never returns.\<close>

datatype sync_result = Returned "go_error option" | Panicked panic | Blocked

text \<open>The loop \<^verbatim>\<open>for { t, err := l.acceptor.Accept(); ... }\<close>, with the calls made so far.\<close>

fun accept_loop :: "accepted list \<Rightarrow> call list \<Rightarrow> sync_result \<times> call list" where
  "accept_loop [] calls = (Blocked, calls @ [CallAccept])"
| "accept_loop (AcceptError err # rest) calls = (Returned (Some err), calls @ [CallAccept])"
| "accept_loop (Accepted t done closed # rest) calls =
     (if done then (Returned closed, calls @ [CallAccept, CallClose t])
      else accept_loop rest (calls @ [CallAccept, CallServeTransport t]))"

definition duplicate_call :: go_error where
  "duplicate_call = GoError ''*errors.errorString'' ''duplicate call Listener:Sync''"

text \<open>
  \<^verbatim>\<open>if nil != l.acceptor { return fmt.Errorf("duplicate call Listener:Sync") }\<close>, then
  \<^verbatim>\<open>l.options, err = transport.ParseOptions(...)\<close>, then \<^verbatim>\<open>l.acceptor, err = l.bs.transportFactory.Listen(l.options)\<close>,
  each returning its error, then the accept loop. \<open>Sync\<close> returns its result, the listener
  as it leaves it, and the calls it has made to its collaborators, in order.
\<close>

definition Sync :: "world \<Rightarrow> listener \<Rightarrow> sync_result \<times> listener \<times> call list" where
  "Sync w l =
     (if None \<noteq> acceptor l then (Returned (Some duplicate_call), l, [])
      else
        (case ParseOptions w of
           (opts, Some err) \<Rightarrow>
             (Returned (Some err), l\<lparr>options := Some opts\<rparr>, [CallParseOptions])
         | (opts, None) \<Rightarrow>
             (case Listen w of
                (acc, Some err) \<Rightarrow>
                  (Returned (Some err), l\<lparr>options := Some opts, acceptor := acc\<rparr>,
                   [CallParseOptions, CallListen])
              | (None, None) \<Rightarrow>
                  (Panicked NilDereference, l\<lparr>options := Some opts, acceptor := None\<rparr>,
                   [CallParseOptions, CallListen])
              | (Some a, None) \<Rightarrow>
                  (case accept_loop (Accepts w) [CallParseOptions, CallListen] of
                     (r, calls) \<Rightarrow>
                       (r, l\<lparr>options := Some opts, acceptor := Some a\<rparr>, calls)))))"

section \<open>The structure of the pipeline\<close>

subsection \<open>The chain of contexts\<close>

text \<open>
  \<open>path f ns x rs y\<close>: starting from the pointer \<open>x\<close> and following the field \<open>f\<close>, the
  cells met are \<open>rs\<close>, in this order, and the pointer read in the last of them is \<open>y\<close>.
\<close>

primrec path :: "(handlerContext \<Rightarrow> ref option) \<Rightarrow> handlerContext list \<Rightarrow> ref option \<Rightarrow> ref list \<Rightarrow> ref option \<Rightarrow> bool" where
  "path f ns x [] y \<longleftrightarrow> x = y"
| "path f ns x (r # rs) y \<longleftrightarrow> x = Some r \<and> r < length ns \<and> path f ns (f (ns ! r)) rs y"

text \<open>
  \<open>is_chain p rs\<close>: the contexts of \<open>p\<close> from head to tail are \<open>rs\<close>. The \<^verbatim>\<open>next\<close> links lead
  from the head through \<open>rs\<close> to nil, the \<^verbatim>\<open>prev\<close> links lead from the tail through \<open>rs\<close>
  backwards to nil (so that \<^verbatim>\<open>a.next == b\<close> and \<^verbatim>\<open>b.prev == a\<close> for all neighbours \<open>a\<close>, \<open>b\<close>),
  no context occurs twice, and \<^verbatim>\<open>size\<close> is the number of contexts, at least two.
\<close>

definition is_chain :: "pipeline \<Rightarrow> ref list \<Rightarrow> bool" where
  "is_chain p rs \<longleftrightarrow>
     path next (nodes p) (Some (head p)) rs None \<and>
     path prev (nodes p) (Some (tail p)) (rev rs) None \<and>
     distinct rs \<and> size p = int (length rs) \<and> 2 \<le> size p"

text \<open>
  The contexts met from the head along \<^verbatim>\<open>next\<close>. A chain without repetition has at most as
  many contexts as the store has cells, which bounds the walk.
\<close>

fun follow :: "nat \<Rightarrow> handlerContext list \<Rightarrow> ref option \<Rightarrow> ref list" where
  "follow 0 ns x = []"
| "follow (Suc k) ns x =
     (case x of
        None \<Rightarrow> []
      | Some r \<Rightarrow> if r < length ns then r # follow k ns (next (ns ! r)) else [])"

definition chain :: "pipeline \<Rightarrow> ref list" where
  "chain p = follow (length (nodes p)) (nodes p) (Some (head p))"

definition invariant :: "pipeline \<Rightarrow> bool" where
  "invariant p \<longleftrightarrow> is_chain p (chain p)"

text \<open>The handlers of the pipeline in chain order, sentinels included.\<close>

definition handlers_of :: "pipeline \<Rightarrow> ref list \<Rightarrow> handler list" where
  "handlers_of p rs = map (\<lambda>r. handler (nodes p ! r)) rs"

definition handlers :: "pipeline \<Rightarrow> handler list" where
  "handlers p = handlers_of p (chain p)"

text \<open>
  The store after a context for \<open>h\<close> has been linked in between the neighbours \<open>c\<close> and \<open>n\<close>.
\<close>

definition splice :: "ref \<Rightarrow> ref \<Rightarrow> handler \<Rightarrow> pipeline \<Rightarrow> pipeline" where
  "splice c n h p =
     p\<lparr>nodes := (nodes p @ [\<lparr>handler = h, prev = Some c, next = Some n\<rparr>])
                  [c := (nodes p ! c)\<lparr>next := Some (length (nodes p))\<rparr>,
                   n := (nodes p ! n)\<lparr>prev := Some (length (nodes p))\<rparr>],
       size := size p + 1\<rparr>"

text \<open>What an operation that only links new contexts in leaves as it was.\<close>

definition extends :: "pipeline \<Rightarrow> nat \<Rightarrow> pipeline \<Rightarrow> bool" where
  "extends p k p' \<longleftrightarrow>
     length (nodes p') = length (nodes p) + k \<and>
     (\<forall>r < length (nodes p). handler (nodes p' ! r) = handler (nodes p ! r)) \<and>
     head p' = head p \<and> tail p' = tail p \<and> channel p' = channel p \<and>
     size p' = size p + int k"

section \<open>Example handlers\<close>

text \<open>
  Three handlers \<open>A\<close>, \<open>B\<close>, \<open>C\<close> that each implement some of the six interfaces, and a value
  that implements none of them.
\<close>

definition handler_A :: handler where
  "handler_A = \<lparr>type_name = ''*main.A'', implements = {InboundHandler}\<rparr>"

definition handler_B :: handler where
  "handler_B = \<lparr>type_name = ''*main.B'', implements = {OutboundHandler}\<rparr>"

definition handler_C :: handler where
  "handler_C = \<lparr>type_name = ''*main.C'', implements = {InboundHandler, OutboundHandler}\<rparr>"

definition not_a_handler :: handler where
  "not_a_handler = \<lparr>type_name = ''int'', implements = {}\<rparr>"

text \<open>The pipeline with the chain \<open>[A, B, C]\<close> between the sentinels.\<close>

definition pipeline_ABC :: pipeline where
  "pipeline_ABC = state_of (AddLast [handler_A, handler_B, handler_C] NewPipelineWith)"

section \<open>Properties of the chain\<close>

lemma NewPipelineWith_fields:
  "head NewPipelineWith = 0" "tail NewPipelineWith = 1"
  "size NewPipelineWith = 2" "channel NewPipelineWith = None"
  by (simp_all add: NewPipelineWith_def)

lemma path_append [simp]:
  "path f ns x (as @ bs) z \<longleftrightarrow> (\<exists>y. path f ns x as y \<and> path f ns y bs z)"
  by (induction as arbitrary: x) auto

lemma path_frame:
  "path f ns x rs y \<Longrightarrow> (\<And>r. r \<in> set rs \<Longrightarrow> r < length ns \<Longrightarrow> r < length ns' \<and> f (ns' ! r) = f (ns ! r))
    \<Longrightarrow> path f ns' x rs y"
  by (induction rs arbitrary: x) auto

lemma path_in_range: "path f ns x rs y \<Longrightarrow> r \<in> set rs \<Longrightarrow> r < length ns"
  by (induction rs arbitrary: x) auto

lemma follow_path:
  "path next ns x rs None \<Longrightarrow> length rs \<le> k \<Longrightarrow> follow k ns x = rs"
proof (induction rs arbitrary: x k)
  case Nil
  then show ?case by (cases k) auto
next
  case (Cons r rs)
  then show ?case by (cases k) auto
qed

lemma distinct_in_range_length:
  assumes "distinct rs" and "\<And>r. r \<in> set rs \<Longrightarrow> r < (n::nat)"
  shows "length rs \<le> n"
proof -
  have "set rs \<subseteq> {..<n}" using assms(2) by auto
  then have "card (set rs) \<le> card {..<n}" by (intro card_mono) auto
  then show ?thesis using assms(1) by (simp add: distinct_card)
qed

lemma chain_unique: "is_chain p rs \<Longrightarrow> chain p = rs"
  unfolding is_chain_def chain_def
  by (intro follow_path) (auto intro!: distinct_in_range_length dest: path_in_range)

lemma invariant_iff: "invariant p \<longleftrightarrow> (\<exists>rs. is_chain p rs)"
  unfolding invariant_def using chain_unique by auto

lemma invariantI: "is_chain p rs \<Longrightarrow> invariant p"
  using invariant_iff by blast

lemma is_chain_splice:
  assumes "is_chain p (xs @ c # n # ys)"
  shows "is_chain (splice c n h p) (xs @ c # length (nodes p) # n # ys)"
proof -
  let ?ns = "nodes p" and ?ns' = "nodes (splice c n h p)"
  let ?new = "length (nodes p)"
  from assms have fw: "path next ?ns (Some (head p)) (xs @ c # n # ys) None"
    and bw: "path prev ?ns (Some (tail p)) (rev ys @ n # c # rev xs) None"
    and d: "distinct (xs @ c # n # ys)"
    and sz: "size p = int (length (xs @ c # n # ys))"
    by (simp_all add: is_chain_def)
  have rng: "\<And>r. r \<in> set (xs @ c # n # ys) \<Longrightarrow> r < ?new"
    using fw by (rule path_in_range)
  have c: "c < ?new" and n: "n < ?new" and cn: "c \<noteq> n" using rng d by auto
  have len: "length ?ns' = Suc ?new" by (simp add: splice_def)
  have at_new: "?ns' ! ?new = \<lparr>handler = h, prev = Some c, next = Some n\<rparr>"
    using c n by (simp add: splice_def nth_append)
  have at_c: "?ns' ! c = (?ns ! c)\<lparr>next := Some ?new\<rparr>"
    using c n cn by (simp add: splice_def nth_append)
  have at_n: "?ns' ! n = (?ns ! n)\<lparr>prev := Some ?new\<rparr>"
    using c n cn by (simp add: splice_def nth_append)
  have other: "\<And>r. r < ?new \<Longrightarrow> r \<noteq> c \<Longrightarrow> r \<noteq> n \<Longrightarrow> ?ns' ! r = ?ns ! r"
    by (simp add: splice_def nth_append)
  have nx: "\<And>r. r < ?new \<Longrightarrow> r \<noteq> c \<Longrightarrow> next (?ns' ! r) = next (?ns ! r)"
    using at_n other by (case_tac "r = n") auto
  have pv: "\<And>r. r < ?new \<Longrightarrow> r \<noteq> n \<Longrightarrow> prev (?ns' ! r) = prev (?ns ! r)"
    using at_c other by (case_tac "r = c") auto
  have inx: "\<And>r. r \<in> set xs \<Longrightarrow> r < ?new \<and> r \<noteq> c \<and> r \<noteq> n"
    using d rng by auto
  have iny: "\<And>r. r \<in> set ys \<Longrightarrow> r < ?new \<and> r \<noteq> c \<and> r \<noteq> n"
    using d rng by auto
  from fw obtain fw1: "path next ?ns (Some (head p)) xs (Some c)"
    and fw2: "next (?ns ! c) = Some n"
    and fw3: "path next ?ns (next (?ns ! n)) ys None"
    by auto
  from bw obtain bw1: "path prev ?ns (Some (tail p)) (rev ys) (Some n)"
    and bw2: "prev (?ns ! n) = Some c"
    and bw3: "path prev ?ns (prev (?ns ! c)) (rev xs) None"
    by auto
  have "path next ?ns' (Some (head p)) xs (Some c)"
    by (rule path_frame[OF fw1]) (auto simp: len nx inx less_SucI)
  moreover have "path next ?ns' (next (?ns ! n)) ys None"
    by (rule path_frame[OF fw3]) (auto simp: len nx iny less_SucI)
  ultimately have F: "path next ?ns' (Some (head p)) (xs @ c # ?new # n # ys) None"
    using c n cn by (auto simp: len at_new at_c nx)
  have "path prev ?ns' (Some (tail p)) (rev ys) (Some n)"
    by (rule path_frame[OF bw1]) (auto simp: len pv iny less_SucI)
  moreover have "path prev ?ns' (prev (?ns ! c)) (rev xs) None"
    by (rule path_frame[OF bw3]) (auto simp: len pv inx less_SucI)
  ultimately have B: "path prev ?ns' (Some (tail p)) (rev ys @ n # ?new # c # rev xs) None"
    using c n cn by (auto simp: len at_new at_n pv)
  have D: "distinct (xs @ c # ?new # n # ys)"
    using d inx iny c n by auto
  have hd: "head (splice c n h p) = head p" "tail (splice c n h p) = tail p"
    "size (splice c n h p) = size p + 1" by (simp_all add: splice_def)
  show ?thesis
    unfolding is_chain_def using F B D sz by (simp add: hd)
qed


lemma is_chain_facts:
  assumes "is_chain p (xs @ c # n # ys)"
  shows "c < length (nodes p)" "n < length (nodes p)" "c \<noteq> n"
    "next (nodes p ! c) = Some n" "prev (nodes p ! n) = Some c"
proof -
  from assms have fw: "path next (nodes p) (Some (head p)) (xs @ c # n # ys) None"
    and bw: "path prev (nodes p) (Some (tail p)) (rev ys @ n # c # rev xs) None"
    and d: "distinct (xs @ c # n # ys)"
    by (simp_all add: is_chain_def)
  show "c < length (nodes p)" "n < length (nodes p)" "next (nodes p ! c) = Some n"
    using fw by auto
  show "prev (nodes p ! n) = Some c" using bw by auto
  show "c \<noteq> n" using d by auto
qed

lemma is_chain_head: "is_chain p (r # rs) \<Longrightarrow> head p = r"
  by (simp add: is_chain_def)

lemma is_chain_tail: "is_chain p (rs @ [r]) \<Longrightarrow> tail p = r"
  by (simp add: is_chain_def)

lemma insert_after_splice:
  assumes "is_chain p (xs @ c # n # ys)"
  shows "insert_after (Some c) h p = Inr (Some (length (nodes p)), splice c n h p)"
  using is_chain_facts[OF assms]
  by (simp add: insert_after_def load_def alloc_def write_next_def write_prev_def
      set_next_def set_prev_def splice_def nth_append)

lemma addLast_splice:
  assumes "is_chain p (xs @ [c, t])"
  shows "addLast h p = Inr (splice c t h p)"
proof -
  have t: "tail p = t" using is_chain_tail[of p "xs @ [c]" t] assms by simp
  from assms have "is_chain p (xs @ c # t # [])" by simp
  from is_chain_facts[OF this] t show ?thesis
    by (simp add: addLast_def load_def alloc_def write_next_def write_prev_def
      set_next_def set_prev_def splice_def nth_append list_update_swap[of c t])
qed

lemma splice_fields [simp]:
  "head (splice c n h p) = head p" "tail (splice c n h p) = tail p"
  "channel (splice c n h p) = channel p" "size (splice c n h p) = size p + 1"
  "length (nodes (splice c n h p)) = Suc (length (nodes p))"
  by (simp_all add: splice_def)

lemma splice_handler_new:
  "c < length (nodes p) \<Longrightarrow> n < length (nodes p) \<Longrightarrow>
   handler (nodes (splice c n h p) ! length (nodes p)) = h"
  by (simp add: splice_def nth_append)

lemma splice_handler_old:
  "c < length (nodes p) \<Longrightarrow> n < length (nodes p) \<Longrightarrow> r < length (nodes p) \<Longrightarrow>
   handler (nodes (splice c n h p) ! r) = handler (nodes p ! r)"
  by (simp add: splice_def nth_append nth_list_update)


lemma extends_refl: "extends p 0 p"
  by (simp add: extends_def)

lemma extends_trans: "extends p j p' \<Longrightarrow> extends p' k p'' \<Longrightarrow> extends p (j + k) p''"
  by (auto simp: extends_def)

lemma extends_splice:
  "c < length (nodes p) \<Longrightarrow> n < length (nodes p) \<Longrightarrow> extends p 1 (splice c n h p)"
  by (simp add: extends_def splice_handler_old)

lemma extends_handlers_of:
  "extends p k p' \<Longrightarrow> \<forall>r\<in>set rs. r < length (nodes p) \<Longrightarrow> handlers_of p' rs = handlers_of p rs"
  by (simp add: extends_def handlers_of_def)

lemma is_chain_in_range: "is_chain p rs \<Longrightarrow> r \<in> set rs \<Longrightarrow> r < length (nodes p)"
  unfolding is_chain_def using path_in_range by blast

lemma upt_Suc_shift: "[a ..< a + Suc k] = a # [Suc a ..< Suc a + k]"
  by (simp del: upt_Suc add: upt_conv_Cons)

lemma AddHandler_loop_chain:
  "is_chain p (xs @ c # n # ys) \<Longrightarrow>
   \<exists>p'. AddHandler_loop hs (Some c) p = Inr p' \<and>
        is_chain p' (xs @ c # [length (nodes p) ..< length (nodes p) + length hs] @ n # ys) \<and>
        handlers_of p' [length (nodes p) ..< length (nodes p) + length hs] = hs \<and>
        extends p (length hs) p'"
proof (induction hs arbitrary: p xs c)
  case Nil
  then show ?case by (simp add: extends_refl handlers_of_def)
next
  case (Cons h hs)
  let ?new = "length (nodes p)"
  let ?p1 = "splice c n h p"
  note f = is_chain_facts[OF Cons.prems]
  have step: "insert_after (Some c) h p = Inr (Some ?new, ?p1)"
    by (rule insert_after_splice[OF Cons.prems])
  have "is_chain ?p1 ((xs @ [c]) @ ?new # n # ys)"
    using is_chain_splice[OF Cons.prems, of h] by simp
  from Cons.IH[OF this] obtain p' where
    run: "AddHandler_loop hs (Some ?new) ?p1 = Inr p'"
    and ch: "is_chain p' ((xs @ [c]) @ ?new # [Suc ?new ..< Suc ?new + length hs] @ n # ys)"
    and hs: "handlers_of p' [Suc ?new ..< Suc ?new + length hs] = hs"
    and ext: "extends ?p1 (length hs) p'"
    by auto
  have e1: "extends p 1 ?p1" using f(1,2) by (rule extends_splice)
  have ext': "extends p (length (h # hs)) p'"
    using extends_trans[OF e1 ext] by simp
  have hnew: "handler (nodes p' ! ?new) = h"
    using ext f by (simp add: extends_def splice_handler_new)
  have upt: "[?new ..< ?new + length (h # hs)] = ?new # [Suc ?new ..< Suc ?new + length hs]"
    by (simp only: length_Cons upt_Suc_shift)
  have "handlers_of p' [?new ..< ?new + length (h # hs)] = h # hs"
    unfolding upt using hs hnew by (simp add: handlers_of_def)
  moreover have "is_chain p' (xs @ c # [?new ..< ?new + length (h # hs)] @ n # ys)"
    unfolding upt using ch by simp
  ultimately show ?case using step run ext' by simp
qed

lemma AddFirst_loop_chain:
  "is_chain p (c # n # ys) \<Longrightarrow>
   \<exists>p'. AddFirst_loop hs p = Inr p' \<and>
        is_chain p' (c # rev [length (nodes p) ..< length (nodes p) + length hs] @ n # ys) \<and>
        handlers_of p' [length (nodes p) ..< length (nodes p) + length hs] = hs \<and>
        extends p (length hs) p'"
proof (induction hs arbitrary: p n ys)
  case Nil
  then show ?case by (simp add: extends_refl handlers_of_def)
next
  case (Cons h hs)
  let ?new = "length (nodes p)"
  let ?p1 = "splice c n h p"
  from Cons.prems have ch0: "is_chain p ([] @ c # n # ys)" by simp
  note f = is_chain_facts[OF ch0]
  have hd: "head p = c" using Cons.prems by (rule is_chain_head)
  have step: "addFirst h p = Inr ?p1"
    using insert_after_splice[OF ch0, of h] by (simp add: addFirst_def hd)
  have "is_chain ?p1 (c # ?new # n # ys)"
    using is_chain_splice[OF ch0, of h] by simp
  from Cons.IH[OF this] obtain p' where
    run: "AddFirst_loop hs ?p1 = Inr p'"
    and ch: "is_chain p' (c # rev [Suc ?new ..< Suc ?new + length hs] @ ?new # n # ys)"
    and hs: "handlers_of p' [Suc ?new ..< Suc ?new + length hs] = hs"
    and ext: "extends ?p1 (length hs) p'"
    by auto
  have e1: "extends p 1 ?p1" using f(1,2) by (rule extends_splice)
  have ext': "extends p (length (h # hs)) p'"
    using extends_trans[OF e1 ext] by simp
  have hnew: "handler (nodes p' ! ?new) = h"
    using ext f by (simp add: extends_def splice_handler_new)
  have upt: "[?new ..< ?new + length (h # hs)] = ?new # [Suc ?new ..< Suc ?new + length hs]"
    by (simp only: length_Cons upt_Suc_shift)
  have "handlers_of p' [?new ..< ?new + length (h # hs)] = h # hs"
    unfolding upt using hs hnew by (simp add: handlers_of_def)
  moreover have "is_chain p' (c # rev [?new ..< ?new + length (h # hs)] @ n # ys)"
    unfolding upt using ch by simp
  ultimately show ?case using step run ext' by simp
qed

lemma AddLast_loop_chain:
  "is_chain p (xs @ [c, t]) \<Longrightarrow>
   \<exists>p'. AddLast_loop hs p = Inr p' \<and>
        is_chain p' (xs @ c # [length (nodes p) ..< length (nodes p) + length hs] @ [t]) \<and>
        handlers_of p' [length (nodes p) ..< length (nodes p) + length hs] = hs \<and>
        extends p (length hs) p'"
proof (induction hs arbitrary: p xs c)
  case Nil
  then show ?case by (simp add: extends_refl handlers_of_def)
next
  case (Cons h hs)
  let ?new = "length (nodes p)"
  let ?p1 = "splice c t h p"
  from Cons.prems have ch0: "is_chain p (xs @ c # t # [])" by simp
  note f = is_chain_facts[OF ch0]
  have step: "addLast h p = Inr ?p1"
    by (rule addLast_splice[OF Cons.prems])
  have "is_chain ?p1 ((xs @ [c]) @ [?new, t])"
    using is_chain_splice[OF ch0, of h] by simp
  from Cons.IH[OF this] obtain p' where
    run: "AddLast_loop hs ?p1 = Inr p'"
    and ch: "is_chain p' ((xs @ [c]) @ ?new # [Suc ?new ..< Suc ?new + length hs] @ [t])"
    and hs: "handlers_of p' [Suc ?new ..< Suc ?new + length hs] = hs"
    and ext: "extends ?p1 (length hs) p'"
    by auto
  have e1: "extends p 1 ?p1" using f(1,2) by (rule extends_splice)
  have ext': "extends p (length (h # hs)) p'"
    using extends_trans[OF e1 ext] by simp
  have hnew: "handler (nodes p' ! ?new) = h"
    using ext f by (simp add: extends_def splice_handler_new)
  have upt: "[?new ..< ?new + length (h # hs)] = ?new # [Suc ?new ..< Suc ?new + length hs]"
    by (simp only: length_Cons upt_Suc_shift)
  have "handlers_of p' [?new ..< ?new + length (h # hs)] = h # hs"
    unfolding upt using hs hnew by (simp add: handlers_of_def)
  moreover have "is_chain p' (xs @ c # [?new ..< ?new + length (h # hs)] @ [t])"
    unfolding upt using ch by simp
  ultimately show ?case using step run ext' by simp
qed

lemma path_nth:
  "path f ns x rs y \<Longrightarrow> Suc k < length rs \<Longrightarrow> f (ns ! (rs ! k)) = Some (rs ! Suc k)"
proof (induction rs arbitrary: x k)
  case Nil
  then show ?case by simp
next
  case (Cons r rs)
  then show ?case by (cases k; cases rs) auto
qed

lemma forward_done: "position \<le> i \<Longrightarrow> forward i position x p = Inr x"
  by (simp add: forward.simps)

lemma forward_path:
  assumes "path next (nodes p) x rs None"
  shows "i \<le> k \<Longrightarrow> k < length rs \<Longrightarrow>
         forward (int i) (int k) (Some (rs ! i)) p = Inr (Some (rs ! k))"
proof (induction "k - i" arbitrary: i)
  case 0
  then show ?case by (simp add: forward.simps)
next
  case (Suc d)
  then have lt: "i < k" and si: "Suc i < length rs" by auto
  have rng: "rs ! i < length (nodes p)"
    using path_in_range[OF assms, of "rs ! i"] Suc.prems by simp
  have nx: "next (nodes p ! (rs ! i)) = Some (rs ! Suc i)"
    using path_nth[OF assms si] .
  have "forward (int i) (int k) (Some (rs ! i)) p = forward (int (Suc i)) (int k) (Some (rs ! Suc i)) p"
    using lt rng nx by (subst forward.simps) (simp add: load_def add.commute)
  also have "\<dots> = Inr (Some (rs ! k))"
    using Suc by (intro Suc.hyps(1)) auto
  finally show ?case .
qed

lemma invariant_chain: "invariant p \<Longrightarrow> is_chain p (chain p)"
  by (simp add: invariant_def)

lemma is_chain_length: "is_chain p rs \<Longrightarrow> size p = int (length rs) \<and> 2 \<le> length rs"
  by (auto simp: is_chain_def)

lemma ContextAt_chain:
  assumes "is_chain p rs" "0 \<le> position" "position < size p"
  shows "ContextAt position p = Inr (Some (rs ! nat position))"
    and "handler_at position p = Some (handlers_of p rs ! nat position)"
proof -
  have len: "nat position < length rs" "rs \<noteq> []"
    using assms is_chain_length[OF assms(1)] by auto
  have fw: "path next (nodes p) (Some (head p)) rs None"
    using assms(1) by (simp add: is_chain_def)
  have hd: "rs ! 0 = head p" using fw len by (cases rs) auto
  have "forward (int 0) (int (nat position)) (Some (rs ! 0)) p = Inr (Some (rs ! nat position))"
    using len by (intro forward_path[OF fw]) auto
  then show c: "ContextAt position p = Inr (Some (rs ! nat position))"
    using assms(2,3) by (simp add: ContextAt_def hd)
  have "rs ! nat position < length (nodes p)"
    using is_chain_in_range[OF assms(1)] len by simp
  then show "handler_at position p = Some (handlers_of p rs ! nat position)"
    using len by (simp add: handler_at_def c load_def handlers_of_def)
qed

lemma recognized_iff: "recognized h \<longleftrightarrow> implements h \<noteq> {}"
proof
  assume "recognized h"
  then show "implements h \<noteq> {}" by (auto simp: recognized_def split: if_splits)
next
  assume "implements h \<noteq> {}"
  then obtain c where "c \<in> implements h" by auto
  then show "recognized h" by (cases c) (auto simp: recognized_def)
qed

lemma checkHandler_from_ok:
  "list_all recognized hs \<Longrightarrow> checkHandler_from i hs p = Inr p"
  by (induction hs arbitrary: i) (auto simp: Assert_def)

lemma checkHandler_ok: "list_all recognized hs \<Longrightarrow> checkHandler hs p = Inr p"
  by (simp add: checkHandler_def checkHandler_from_ok)

lemma checkHandler_from_fails:
  "\<not> list_all recognized hs \<Longrightarrow>
   \<exists>k < length hs. \<not> recognized (hs ! k) \<and> (\<forall>j < k. recognized (hs ! j)) \<and>
     checkHandler_from i hs p = Inl (UnrecognizedHandler (i + k) (type_name (hs ! k)), p)"
proof (induction hs arbitrary: i)
  case Nil
  then show ?case by simp
next
  case (Cons h hs)
  show ?case
  proof (cases "recognized h")
    case False
    then have "\<not> recognized ((h # hs) ! 0) \<and> (\<forall>j < 0. recognized ((h # hs) ! j)) \<and>
      checkHandler_from i (h # hs) p = Inl (UnrecognizedHandler (i + 0) (type_name ((h # hs) ! 0)), p)"
      by (simp add: Assert_def)
    then show ?thesis by blast
  next
    case True
    with Cons.prems have "\<not> list_all recognized hs" by simp
    from Cons.IH[OF this, of "Suc i"] obtain k where k: "k < length hs" "\<not> recognized (hs ! k)"
      "\<forall>j < k. recognized (hs ! j)"
      "checkHandler_from (Suc i) hs p = Inl (UnrecognizedHandler (Suc i + k) (type_name (hs ! k)), p)"
      by blast
    have "\<forall>j < Suc k. recognized ((h # hs) ! j)"
      using True k(3) by (auto simp: nth_Cons split: nat.splits)
    then have "Suc k < length (h # hs) \<and> \<not> recognized ((h # hs) ! Suc k) \<and>
      (\<forall>j < Suc k. recognized ((h # hs) ! j)) \<and>
      checkHandler_from i (h # hs) p = Inl (UnrecognizedHandler (i + Suc k) (type_name ((h # hs) ! Suc k)), p)"
      using k True by (simp add: Assert_def)
    then show ?thesis by blast
  qed
qed

lemma handlers_of_append [simp]: "handlers_of p (xs @ ys) = handlers_of p xs @ handlers_of p ys"
  by (simp add: handlers_of_def)

lemma handlers_of_Cons [simp]: "handlers_of p (x # xs) = handler (nodes p ! x) # handlers_of p xs"
  by (simp add: handlers_of_def)

lemma handlers_of_Nil [simp]: "handlers_of p [] = []"
  by (simp add: handlers_of_def)

lemma handlers_of_rev: "handlers_of p (rev xs) = rev (handlers_of p xs)"
  by (simp add: handlers_of_def rev_map)

lemma length_handlers_of [simp]: "length (handlers_of p rs) = length rs"
  by (simp add: handlers_of_def)

lemma handlers_chain: "is_chain p rs \<Longrightarrow> handlers p = handlers_of p rs"
  by (simp add: handlers_def chain_unique)

text \<open>AddHandler in the middle of the chain.\<close>

lemma AddHandler_loop_after:
  assumes ch: "is_chain p rs" and k: "Suc k < length rs"
  shows "\<exists>p'. AddHandler_loop hs (Some (rs ! k)) p = Inr p' \<and>
          is_chain p' (take (Suc k) rs @ [length (nodes p) ..< length (nodes p) + length hs] @ drop (Suc k) rs) \<and>
          handlers_of p' (take (Suc k) rs @ [length (nodes p) ..< length (nodes p) + length hs] @ drop (Suc k) rs)
            = take (Suc k) (handlers_of p rs) @ hs @ drop (Suc k) (handlers_of p rs) \<and>
          extends p (length hs) p'"
proof -
  let ?new = "[length (nodes p) ..< length (nodes p) + length hs]"
  have split: "rs = take k rs @ rs ! k # rs ! Suc k # drop (Suc (Suc k)) rs"
    using k by (metis Cons_nth_drop_Suc Suc_lessD id_take_nth_drop)
  have tk: "take (Suc k) rs = take k rs @ [rs ! k]"
    using k by (simp add: take_Suc_conv_app_nth)
  have dr: "drop (Suc k) rs = rs ! Suc k # drop (Suc (Suc k)) rs"
    using k by (simp add: Cons_nth_drop_Suc)
  from ch have "is_chain p (take k rs @ rs ! k # rs ! Suc k # drop (Suc (Suc k)) rs)"
    using split by simp
  from AddHandler_loop_chain[OF this, of hs] obtain p' where
    run: "AddHandler_loop hs (Some (rs ! k)) p = Inr p'"
    and ch': "is_chain p' (take k rs @ rs ! k # ?new @ rs ! Suc k # drop (Suc (Suc k)) rs)"
    and hs: "handlers_of p' ?new = hs"
    and ext: "extends p (length hs) p'"
    by blast
  have old: "\<And>xs. set xs \<subseteq> set rs \<Longrightarrow> handlers_of p' xs = handlers_of p xs"
    using extends_handlers_of[OF ext] is_chain_in_range[OF ch] by blast
  have "handlers_of p' (take (Suc k) rs) = take (Suc k) (handlers_of p rs)"
    using old[of "take (Suc k) rs"] by (simp add: set_take_subset handlers_of_def take_map)
  moreover have "handlers_of p' (drop (Suc k) rs) = drop (Suc k) (handlers_of p rs)"
    using old[of "drop (Suc k) rs"] by (simp add: set_drop_subset handlers_of_def drop_map)
  ultimately have "handlers_of p' (take (Suc k) rs @ ?new @ drop (Suc k) rs)
            = take (Suc k) (handlers_of p rs) @ hs @ drop (Suc k) (handlers_of p rs)"
    using hs by simp
  moreover have "is_chain p' (take (Suc k) rs @ ?new @ drop (Suc k) rs)"
    using ch' by (simp add: tk dr)
  ultimately show ?thesis using run ext by blast
qed

lemma AddHandler_middle:
  assumes inv: "invariant p" and ok: "list_all recognized hs"
    and pos: "position \<noteq> -1" "position < size p - 1"
  shows "\<exists>p'. AddHandler position hs p = Inr p' \<and> invariant p' \<and>
          chain p' = take (Suc (nat position)) (chain p)
                     @ [length (nodes p) ..< length (nodes p) + length hs]
                     @ drop (Suc (nat position)) (chain p) \<and>
          handlers p' = take (Suc (nat position)) (handlers p) @ hs
                     @ drop (Suc (nat position)) (handlers p) \<and>
          extends p (length hs) p'"
proof -
  let ?rs = "chain p" and ?k = "nat position"
  have ch: "is_chain p ?rs" using inv by (rule invariant_chain)
  have len: "size p = int (length ?rs)" "2 \<le> length ?rs"
    using is_chain_length[OF ch] by simp_all
  have k: "Suc ?k < length ?rs" using pos len by (cases "0 \<le> position") auto
  have fw: "path next (nodes p) (Some (head p)) ?rs None"
    using ch by (simp add: is_chain_def)
  have hd: "?rs ! 0 = head p" using fw k by (cases ?rs) auto
  have walk: "forward 0 position (Some (head p)) p = Inr (Some (?rs ! ?k))"
  proof (cases "0 \<le> position")
    case True
    have "forward (int 0) (int ?k) (Some (?rs ! 0)) p = Inr (Some (?rs ! ?k))"
      using k by (intro forward_path[OF fw]) auto
    then show ?thesis using True by (simp add: hd)
  next
    case False
    then show ?thesis by (simp add: forward_done hd)
  qed
  from AddHandler_loop_after[OF ch k, of hs] obtain p' where
    run: "AddHandler_loop hs (Some (?rs ! ?k)) p = Inr p'"
    and ch': "is_chain p' (take (Suc ?k) ?rs @ [length (nodes p) ..< length (nodes p) + length hs] @ drop (Suc ?k) ?rs)"
    and hs: "handlers_of p' (take (Suc ?k) ?rs @ [length (nodes p) ..< length (nodes p) + length hs] @ drop (Suc ?k) ?rs)
            = take (Suc ?k) (handlers_of p ?rs) @ hs @ drop (Suc ?k) (handlers_of p ?rs)"
    and ext: "extends p (length hs) p'"
    by blast
  have "AddHandler position hs p = Inr p'"
    using pos walk run by (simp add: AddHandler_def checkHandler_ok[OF ok] AssertIf_def)
  moreover have "invariant p'" using ch' by (rule invariantI)
  moreover have "chain p' = take (Suc ?k) ?rs @ [length (nodes p) ..< length (nodes p) + length hs] @ drop (Suc ?k) ?rs"
    using ch' by (rule chain_unique)
  moreover have "handlers p' = take (Suc ?k) (handlers p) @ hs @ drop (Suc ?k) (handlers p)"
    unfolding handlers_chain[OF ch'] handlers_chain[OF ch] by (rule hs)
  ultimately show ?thesis using ext by blast
qed

lemma AddFirst_chain:
  assumes inv: "invariant p" and ok: "list_all recognized hs"
  shows "\<exists>p'. AddFirst hs p = Inr p' \<and> invariant p' \<and>
          chain p' = hd (chain p) # rev [length (nodes p) ..< length (nodes p) + length hs]
                     @ tl (chain p) \<and>
          handlers p' = hd (handlers p) # rev hs @ tl (handlers p) \<and>
          extends p (length hs) p'"
proof -
  let ?new = "[length (nodes p) ..< length (nodes p) + length hs]"
  have ch: "is_chain p (chain p)" using inv by (rule invariant_chain)
  from is_chain_length[OF ch] obtain c n ys where rs: "chain p = c # n # ys"
    by (cases "chain p"; cases "tl (chain p)") auto
  from ch have ch0: "is_chain p (c # n # ys)" by (simp add: rs)
  from AddFirst_loop_chain[OF ch0, of hs] obtain p' where
    run: "AddFirst_loop hs p = Inr p'"
    and ch': "is_chain p' (c # rev ?new @ n # ys)"
    and hs: "handlers_of p' ?new = hs"
    and ext: "extends p (length hs) p'"
    by blast
  have old: "handlers_of p' (c # n # ys) = handlers_of p (c # n # ys)"
    using extends_handlers_of[OF ext] is_chain_in_range[OF ch0] by blast
  have "handlers p' = handlers_of p' (c # rev ?new @ n # ys)"
    using ch' by (rule handlers_chain)
  also have "\<dots> = handler (nodes p ! c) # rev hs @ handlers_of p (n # ys)"
    using old hs by (simp add: handlers_of_rev)
  also have "\<dots> = hd (handlers p) # rev hs @ tl (handlers p)"
    by (simp add: handlers_chain[OF ch0])
  finally have "handlers p' = hd (handlers p) # rev hs @ tl (handlers p)" .
  moreover have "AddFirst hs p = Inr p'"
    using run by (simp add: AddFirst_def checkHandler_ok[OF ok])
  moreover have "invariant p'" using ch' by (rule invariantI)
  moreover have "chain p' = hd (chain p) # rev ?new @ tl (chain p)"
    using chain_unique[OF ch'] by (simp add: rs)
  ultimately show ?thesis using ext by blast
qed

lemma two_last:
  assumes "2 \<le> length rs"
  shows "\<exists>xs c t. rs = xs @ [c, t]"
proof (cases rs rule: rev_cases)
  case Nil
  with assms show ?thesis by simp
next
  case (snoc ys t)
  show ?thesis
  proof (cases ys rule: rev_cases)
    case Nil
    with snoc assms show ?thesis by simp
  next
    case (snoc xs c)
    with \<open>rs = ys @ [t]\<close> show ?thesis by simp
  qed
qed

lemma AddLast_chain:
  assumes inv: "invariant p" and ok: "list_all recognized hs"
  shows "\<exists>p'. AddLast hs p = Inr p' \<and> invariant p' \<and>
          chain p' = butlast (chain p) @ [length (nodes p) ..< length (nodes p) + length hs]
                     @ [last (chain p)] \<and>
          handlers p' = butlast (handlers p) @ hs @ [last (handlers p)] \<and>
          extends p (length hs) p'"
proof -
  let ?new = "[length (nodes p) ..< length (nodes p) + length hs]"
  have ch: "is_chain p (chain p)" using inv by (rule invariant_chain)
  have "2 \<le> length (chain p)" using is_chain_length[OF ch] by simp
  from two_last[OF this] obtain xs c t where rs: "chain p = xs @ [c, t]"
    by blast
  from ch have ch0: "is_chain p (xs @ [c, t])" by (simp add: rs)
  from AddLast_loop_chain[OF ch0, of hs] obtain p' where
    run: "AddLast_loop hs p = Inr p'"
    and ch': "is_chain p' (xs @ c # ?new @ [t])"
    and hs: "handlers_of p' ?new = hs"
    and ext: "extends p (length hs) p'"
    by blast
  have old: "handlers_of p' (xs @ [c, t]) = handlers_of p (xs @ [c, t])"
    using extends_handlers_of[OF ext] is_chain_in_range[OF ch0] by blast
  have "handlers p' = handlers_of p' (xs @ c # ?new @ [t])"
    using ch' by (rule handlers_chain)
  also have "\<dots> = handlers_of p (xs @ [c]) @ hs @ [handler (nodes p ! t)]"
    using old hs by simp
  also have "\<dots> = butlast (handlers p) @ hs @ [last (handlers p)]"
    by (simp add: handlers_chain[OF ch0] butlast_append)
  finally have "handlers p' = butlast (handlers p) @ hs @ [last (handlers p)]" .
  moreover have "AddLast hs p = Inr p'"
    using run by (simp add: AddLast_def checkHandler_ok[OF ok])
  moreover have "invariant p'" using ch' by (rule invariantI)
  moreover have "chain p' = butlast (chain p) @ ?new @ [last (chain p)]"
    using chain_unique[OF ch'] by (simp add: rs butlast_append)
  ultimately show ?thesis using ext by blast
qed

lemma checkHandler_fails:
  assumes "\<not> list_all recognized hs"
  shows "\<exists>k < length hs. \<not> recognized (hs ! k) \<and> (\<forall>j < k. recognized (hs ! j)) \<and>
     checkHandler hs p = Inl (UnrecognizedHandler k (type_name (hs ! k)), p)"
  using checkHandler_from_fails[OF assms, of 0 p] by (simp add: checkHandler_def)

lemma invariant_NewPipelineWith: "invariant NewPipelineWith"
  by (rule invariantI[of _ "[0, 1]"]) (simp add: is_chain_def NewPipelineWith_def)

lemma chain_NewPipelineWith: "chain NewPipelineWith = [0, 1]"
  by (rule chain_unique) (simp add: is_chain_def NewPipelineWith_def)

lemma handlers_NewPipelineWith: "handlers NewPipelineWith = [headHandler, tailHandler]"
  by (simp add: handlers_def chain_NewPipelineWith) (simp add: NewPipelineWith_def)

lemma visit_path:
  assumes "path dir (nodes p) cur rs None"
  shows "\<exists>vs. visit cap dir lg p cur m seen = Some (seen @ vs) \<and> prefix vs rs \<and>
           (rs \<noteq> [] \<longrightarrow> vs \<noteq> []) \<and>
           ((\<forall>r \<in> set rs. forwards cap lg (handler (nodes p ! r))) \<longrightarrow> vs = rs)"
  using assms
proof (induction rs arbitrary: cur m seen)
  case Nil
  then have "visit cap dir lg p cur m seen = Some seen"
    by (subst visit.simps) simp
  then show ?case by simp
next
  case (Cons r rs)
  then have cur: "cur = Some r" and r: "r < length (nodes p)"
    and rest: "path dir (nodes p) (dir (nodes p ! r)) rs None"
    by simp_all
  let ?c = "nodes p ! r"
  have unfold: "visit cap dir lg p cur m seen =
      (if cap \<in> implements (handler ?c) then
         (case lg (handler ?c) m of
            None \<Rightarrow> Some (seen @ [r])
          | Some m' \<Rightarrow> visit cap dir lg p (dir ?c) m' (seen @ [r]))
       else visit cap dir lg p (dir ?c) m (seen @ [r]))"
    using r by (subst visit.simps) (simp add: cur load_def)
  show ?case
  proof (cases "cap \<in> implements (handler ?c) \<and> lg (handler ?c) m = None")
    case True
    then have "visit cap dir lg p cur m seen = Some (seen @ [r])"
      by (simp add: unfold)
    moreover have "prefix [r] (r # rs)" by simp
    moreover have "\<not> forwards cap lg (handler ?c)"
      using True by (auto simp: forwards_def)
    then have "(\<forall>r' \<in> set (r # rs). forwards cap lg (handler (nodes p ! r'))) \<longrightarrow> [r] = r # rs"
      by simp
    ultimately show ?thesis by blast
  next
    case False
    then have "\<exists>m'. visit cap dir lg p cur m seen = visit cap dir lg p (dir ?c) m' (seen @ [r])"
      unfolding unfold by (cases "lg (handler ?c) m") auto
    then obtain m' where step: "visit cap dir lg p cur m seen = visit cap dir lg p (dir ?c) m' (seen @ [r])"
      by blast
    from Cons.IH[OF rest, of m' "seen @ [r]"] obtain vs where
      vs: "visit cap dir lg p (dir ?c) m' (seen @ [r]) = Some ((seen @ [r]) @ vs)"
      "prefix vs rs"
      "(\<forall>r \<in> set rs. forwards cap lg (handler (nodes p ! r))) \<longrightarrow> vs = rs"
      by blast
    have "visit cap dir lg p cur m seen = Some (seen @ (r # vs))"
      using step vs(1) by simp
    moreover have "prefix (r # vs) (r # rs)" using vs(2) by simp
    moreover have "(\<forall>r' \<in> set (r # rs). forwards cap lg (handler (nodes p ! r'))) \<longrightarrow> r # vs = r # rs"
      using vs(3) by simp
    ultimately show ?thesis by blast
  qed
qed

lemma FireChannelRead_chain:
  assumes "invariant p"
  shows "\<exists>vs. FireChannelRead lg p m = Some vs \<and> prefix vs (chain p) \<and> vs \<noteq> [] \<and> hd vs = head p \<and>
           ((\<forall>r \<in> set (chain p). forwards InboundHandler lg (handler (nodes p ! r))) \<longrightarrow> vs = chain p)"
proof -
  have ch: "is_chain p (chain p)" using assms by (rule invariant_chain)
  then have fw: "path next (nodes p) (Some (head p)) (chain p) None"
    by (simp add: is_chain_def)
  have ne: "chain p \<noteq> []" "hd (chain p) = head p"
    using fw by (cases "chain p"; simp)+
  from visit_path[OF fw, of InboundHandler lg m "[]"] ne obtain vs where
    vs: "visit InboundHandler next lg p (Some (head p)) m [] = Some vs" "prefix vs (chain p)" "vs \<noteq> []"
    "(\<forall>r \<in> set (chain p). forwards InboundHandler lg (handler (nodes p ! r))) \<longrightarrow> vs = chain p"
    by auto
  have "hd vs = head p"
    using vs(2,3) ne by (cases vs; cases "chain p") auto
  then show ?thesis
    using vs by (auto simp: FireChannelRead_def HandleRead_def)
qed

lemma FireChannelWrite_chain:
  assumes "invariant p"
  shows "\<exists>vs. FireChannelWrite lg p m = Some vs \<and> prefix vs (rev (chain p)) \<and> vs \<noteq> [] \<and> hd vs = tail p \<and>
           ((\<forall>r \<in> set (chain p). forwards OutboundHandler lg (handler (nodes p ! r))) \<longrightarrow> vs = rev (chain p))"
proof -
  have ch: "is_chain p (chain p)" using assms by (rule invariant_chain)
  then have bw: "path prev (nodes p) (Some (tail p)) (rev (chain p)) None"
    by (simp add: is_chain_def)
  have ne: "rev (chain p) \<noteq> []" "hd (rev (chain p)) = tail p"
    using bw by (cases "rev (chain p)"; simp)+
  from visit_path[OF bw, of OutboundHandler lg m "[]"] ne obtain vs where
    vs: "visit OutboundHandler prev lg p (Some (tail p)) m [] = Some vs" "prefix vs (rev (chain p))" "vs \<noteq> []"
    "(\<forall>r \<in> set (rev (chain p)). forwards OutboundHandler lg (handler (nodes p ! r))) \<longrightarrow> vs = rev (chain p)"
    by auto
  have "hd vs = tail p"
    using vs(2,3) ne by (cases vs; cases "rev (chain p)") auto
  then show ?thesis
    using vs by (auto simp: FireChannelWrite_def HandleWrite_def)
qed

lemma recognized_examples:
  "recognized handler_A" "recognized handler_B" "recognized handler_C" "\<not> recognized not_a_handler"
  by (simp_all add: recognized_def handler_A_def handler_B_def handler_C_def not_a_handler_def)

lemma pipeline_ABC_eq:
  "pipeline_ABC =
     \<lparr>nodes = [\<lparr>handler = headHandler, prev = None, next = Some 2\<rparr>,
               \<lparr>handler = tailHandler, prev = Some 4, next = None\<rparr>,
               \<lparr>handler = handler_A, prev = Some 0, next = Some 3\<rparr>,
               \<lparr>handler = handler_B, prev = Some 2, next = Some 4\<rparr>,
               \<lparr>handler = handler_C, prev = Some 3, next = Some 1\<rparr>],
      head = 0, tail = 1, channel = None, size = 5\<rparr>"
  by (simp add: pipeline_ABC_def AddLast_def checkHandler_def Assert_def recognized_examples
      addLast_def load_def alloc_def write_prev_def write_next_def set_prev_def set_next_def
      NewPipelineWith_def)

lemma chain_pipeline_ABC: "chain pipeline_ABC = [0, 2, 3, 4, 1]"
  by (rule chain_unique) (simp add: is_chain_def pipeline_ABC_eq)

lemma invariant_pipeline_ABC: "invariant pipeline_ABC"
  by (rule invariantI[of _ "[0, 2, 3, 4, 1]"]) (simp add: is_chain_def pipeline_ABC_eq)

lemma handlers_pipeline_ABC:
  "handlers pipeline_ABC = [headHandler, handler_A, handler_B, handler_C, tailHandler]"
  by (simp add: handlers_def chain_pipeline_ABC) (simp add: pipeline_ABC_eq)

lemma handler_at_chain:
  assumes "invariant p" "0 \<le> position" "position < size p"
  shows "handler_at position p = Some (handlers p ! nat position)"
  using ContextAt_chain(2)[OF invariant_chain[OF assms(1)] assms(2,3)]
  by (simp add: handlers_def)

lemma invariant_ends:
  assumes "invariant p"
  shows "chain p ! 0 = head p" "chain p ! nat (size p - 1) = tail p"
    "hd (chain p) = head p" "last (chain p) = tail p"
proof -
  have ch: "is_chain p (chain p)" using assms by (rule invariant_chain)
  have len: "size p = int (length (chain p))" "2 \<le> length (chain p)"
    using is_chain_length[OF ch] by simp_all
  have fw: "path next (nodes p) (Some (head p)) (chain p) None"
    and bw: "path prev (nodes p) (Some (tail p)) (rev (chain p)) None"
    using ch by (simp_all add: is_chain_def)
  show h: "hd (chain p) = head p" using fw len by (cases "chain p") auto
  have "hd (rev (chain p)) = tail p" using bw len by (cases "rev (chain p)") auto
  then show l: "last (chain p) = tail p" using len by (simp add: hd_rev)
  show "chain p ! 0 = head p" using h len by (cases "chain p") auto
  have "chain p \<noteq> []" using len by auto
  then have "chain p ! (length (chain p) - 1) = tail p"
    using l by (simp add: last_conv_nth)
  moreover have "nat (size p - 1) = length (chain p) - 1" using len by simp
  ultimately show "chain p ! nat (size p - 1) = tail p" by simp
qed

text \<open>
  C2. A fresh pipeline has size 2. After \<open>AddLast\<close> of three handlers \<open>h1\<close>, \<open>h2\<close>, \<open>h3\<close>
  (each implementing one of the six interfaces), in one call or in three, the size is 5,
  \<open>ContextAt\<close> at 1, 2, 3 gives the contexts that hold \<open>h1\<close>, \<open>h2\<close>, \<open>h3\<close>, at 0 the head
  sentinel and at 4 the tail sentinel.
\<close>

theorem fresh_size_and_AddLast_order:
  assumes "recognized h1" "recognized h2" "recognized h3"
  shows "Size NewPipelineWith = 2 \<and>
    (\<exists>p. AddLast [h1, h2, h3] NewPipelineWith = Inr p \<and>
         AddLast [h3] (state_of (AddLast [h2] (state_of (AddLast [h1] NewPipelineWith)))) = Inr p \<and>
         Size p = 5 \<and>
         handler_at 1 p = Some h1 \<and> handler_at 2 p = Some h2 \<and> handler_at 3 p = Some h3 \<and>
         ContextAt 0 p = Inr (Some (head p)) \<and> handler_at 0 p = Some headHandler \<and>
         ContextAt 4 p = Inr (Some (tail p)) \<and> handler_at 4 p = Some tailHandler)"
proof -
  let ?p = "\<lparr>nodes = [\<lparr>handler = headHandler, prev = None, next = Some 2\<rparr>,
               \<lparr>handler = tailHandler, prev = Some 4, next = None\<rparr>,
               \<lparr>handler = h1, prev = Some 0, next = Some 3\<rparr>,
               \<lparr>handler = h2, prev = Some 2, next = Some 4\<rparr>,
               \<lparr>handler = h3, prev = Some 3, next = Some 1\<rparr>],
      head = 0, tail = 1, channel = None, size = 5\<rparr>"
  note defs = AddLast_def checkHandler_def Assert_def addLast_def load_def alloc_def
    write_prev_def write_next_def set_prev_def set_next_def NewPipelineWith_def
  have batch: "AddLast [h1, h2, h3] NewPipelineWith = Inr ?p"
    using assms by (simp add: defs)
  have single: "AddLast [h3] (state_of (AddLast [h2] (state_of (AddLast [h1] NewPipelineWith)))) = Inr ?p"
    using assms by (simp add: defs)
  have ch: "is_chain ?p [0, 2, 3, 4, 1]" by (simp add: is_chain_def)
  have at: "\<And>i. 0 \<le> i \<Longrightarrow> i < 5 \<Longrightarrow>
      ContextAt i ?p = Inr (Some ([0, 2, 3, 4, 1] ! nat i)) \<and>
      handler_at i ?p = Some (handlers_of ?p [0, 2, 3, 4, 1] ! nat i)"
    using ContextAt_chain[OF ch] by simp
  have "handler_at 1 ?p = Some h1" "handler_at 2 ?p = Some h2" "handler_at 3 ?p = Some h3"
    "ContextAt 0 ?p = Inr (Some (head ?p))" "handler_at 0 ?p = Some headHandler"
    "ContextAt 4 ?p = Inr (Some (tail ?p))" "handler_at 4 ?p = Some tailHandler"
    using at[of 0] at[of 1] at[of 2] at[of 3] at[of 4] by simp_all
  moreover have "Size ?p = 5" "Size NewPipelineWith = 2"
    by (simp_all add: Size_def NewPipelineWith_def)
  ultimately show ?thesis using batch single by blast
qed

theorem fresh_size_and_AddLast_order_witness:
  "recognized handler_A \<and> recognized handler_B \<and> recognized handler_C \<and>
   Size pipeline_ABC = 5 \<and> handler_at 1 pipeline_ABC = Some handler_A \<and>
   handler_at 2 pipeline_ABC = Some handler_B \<and> handler_at 3 pipeline_ABC = Some handler_C \<and>
   handler_at 0 pipeline_ABC = Some headHandler \<and> handler_at 4 pipeline_ABC = Some tailHandler"
  using fresh_size_and_AddLast_order[of handler_A handler_B handler_C] recognized_examples
  by (auto simp: pipeline_ABC_def)

lemma recognized_list [simp]: "list_all recognized [handler_A, handler_B, handler_C]"
  by (simp add: recognized_examples)

text \<open>
  C9. \<open>AddFirst\<close> of a batch links each handler in right after the head sentinel, in turn,
  so that the batch stands reversed in the chain: head, \<open>hn\<close>, ..., \<open>h1\<close>, and then what
  followed the head before. On a fresh pipeline, \<open>ContextAt\<close> at 1, 2, 3 after
  \<open>AddFirst [h1, h2, h3]\<close> gives the contexts of \<open>h3\<close>, \<open>h2\<close>, \<open>h1\<close>.
\<close>

theorem AddFirst_reverses_batch:
  assumes "invariant p" and "list_all recognized hs"
  shows "\<exists>p'. AddFirst hs p = Inr p' \<and>
           handlers p' = hd (handlers p) # rev hs @ tl (handlers p) \<and>
           chain p' = head p # rev [length (nodes p) ..< length (nodes p) + length hs] @ tl (chain p) \<and>
           (\<forall>i < length hs. handler_at (1 + int i) p' = Some (rev hs ! i)) \<and>
           (p = NewPipelineWith \<and> length hs = 3 \<longrightarrow>
              handler_at 1 p' = Some (hs ! 2) \<and> handler_at 2 p' = Some (hs ! 1) \<and>
              handler_at 3 p' = Some (hs ! 0))"
proof -
  from AddFirst_chain[OF assms] obtain p' where
    run: "AddFirst hs p = Inr p'" and inv: "invariant p'"
    and ch: "chain p' = hd (chain p) # rev [length (nodes p) ..< length (nodes p) + length hs] @ tl (chain p)"
    and hs: "handlers p' = hd (handlers p) # rev hs @ tl (handlers p)"
    and ext: "extends p (length hs) p'"
    by blast
  have sz: "size p' = size p + int (length hs)" using ext by (simp add: extends_def)
  have sz2: "2 \<le> size p"
    using is_chain_length[OF invariant_chain[OF assms(1)]] by simp
  have at: "handler_at (1 + int i) p' = Some (rev hs ! i)" if "i < length hs" for i
  proof -
    have "handler_at (1 + int i) p' = Some (handlers p' ! nat (1 + int i))"
      using that sz sz2 by (intro handler_at_chain[OF inv]) auto
    also have "nat (1 + int i) = Suc i" by simp
    also have "handlers p' ! Suc i = rev hs ! i"
      using that by (simp add: hs nth_append)
    finally show ?thesis .
  qed
  have "handler_at 1 p' = Some (hs ! 2) \<and> handler_at 2 p' = Some (hs ! 1) \<and>
        handler_at 3 p' = Some (hs ! 0)" if "length hs = 3"
    using at[of 0] at[of 1] at[of 2] that by (simp add: rev_nth)
  then show ?thesis
    using run hs ch at invariant_ends(3)[OF assms(1)] by auto
qed

theorem AddFirst_reverses_batch_witness:
  "invariant NewPipelineWith \<and> list_all recognized [handler_A, handler_B, handler_C] \<and>
   handlers (state_of (AddFirst [handler_A, handler_B, handler_C] NewPipelineWith)) =
     [headHandler, handler_C, handler_B, handler_A, tailHandler]"
proof -
  from AddFirst_reverses_batch[OF invariant_NewPipelineWith recognized_list]
  obtain p' where "AddFirst [handler_A, handler_B, handler_C] NewPipelineWith = Inr p'"
    and "handlers p' = hd (handlers NewPipelineWith) # rev [handler_A, handler_B, handler_C]
           @ tl (handlers NewPipelineWith)"
    by blast
  then show ?thesis
    by (simp add: invariant_NewPipelineWith handlers_NewPipelineWith recognized_examples)
qed

text \<open>
  C10. A position of -2 or less passes both position checks. \<open>ContextAt\<close> then returns the
  head sentinel, the context of index 0, and not nil; \<open>AddHandler\<close> does not fail and
  links the handlers in right after the head sentinel, exactly as for position 0.
\<close>

theorem negative_position_is_head:
  assumes "invariant p" and "position \<le> -2"
  shows "ContextAt position p = Inr (Some (head p)) \<and>
         ContextAt position p = ContextAt 0 p \<and>
         handler_at position p = Some (hd (handlers p)) \<and>
         (list_all recognized hs \<longrightarrow>
            AddHandler position hs p = AddHandler 0 hs p \<and>
            (\<exists>p'. AddHandler position hs p = Inr p' \<and>
                  handlers p' = hd (handlers p) # hs @ tl (handlers p)))"
proof -
  have ch: "is_chain p (chain p)" using assms(1) by (rule invariant_chain)
  have len: "size p = int (length (chain p))" "2 \<le> length (chain p)"
    using is_chain_length[OF ch] by simp_all
  have sz: "2 \<le> size p" using len by simp
  have c0: "ContextAt 0 p = Inr (Some (head p))"
    using sz by (simp add: ContextAt_def forward_done)
  have c: "ContextAt position p = Inr (Some (head p))"
    using sz assms(2) by (simp add: ContextAt_def forward_done)
  have hd0: "chain p ! 0 = head p" using invariant_ends(1)[OF assms(1)] .
  have ne: "chain p \<noteq> []" using len(2) by auto
  have "head p < length (nodes p)"
    using is_chain_in_range[OF ch, of "head p"] hd0 ne by (metis nth_mem length_greater_0_conv)
  then have h: "handler_at position p = Some (hd (handlers p))"
    using ne hd0 by (simp add: handler_at_def c load_def handlers_def handlers_of_def hd_map hd_conv_nth)
  have add: "AddHandler position hs p = AddHandler 0 hs p \<and>
            (\<exists>p'. AddHandler position hs p = Inr p' \<and>
                  handlers p' = hd (handlers p) # hs @ tl (handlers p))"
    if ok: "list_all recognized hs"
  proof -
    have eq: "AddHandler position hs p = AddHandler 0 hs p"
      using sz assms(2) by (simp add: AddHandler_def checkHandler_ok[OF ok] AssertIf_def forward_done)
    from AddHandler_middle[OF assms(1) ok, of 0] sz obtain p' where
      run: "AddHandler 0 hs p = Inr p'"
      and hs: "handlers p' = take (Suc (nat 0)) (handlers p) @ hs @ drop (Suc (nat 0)) (handlers p)"
      by auto
    have "handlers p \<noteq> []" using ne by (simp add: handlers_def handlers_of_def)
    then have "take (Suc 0) (handlers p) = [hd (handlers p)]" "drop (Suc 0) (handlers p) = tl (handlers p)"
      by (cases "handlers p"; simp)+
    then show ?thesis using eq run hs by simp
  qed
  have add': "list_all recognized hs \<longrightarrow>
            AddHandler position hs p = AddHandler 0 hs p \<and>
            (\<exists>p'. AddHandler position hs p = Inr p' \<and>
                  handlers p' = hd (handlers p) # hs @ tl (handlers p))"
    by (rule impI) (rule add)
  have c': "ContextAt position p = ContextAt 0 p" by (simp add: c c0)
  show ?thesis by (rule conjI[OF c conjI[OF c' conjI[OF h add']]])
qed

theorem negative_position_is_head_witness:
  "invariant pipeline_ABC \<and> (-7::int) \<le> -2 \<and>
   ContextAt (-7) pipeline_ABC = Inr (Some (head pipeline_ABC)) \<and>
   handlers (state_of (AddHandler (-7) [handler_B] pipeline_ABC)) =
     [headHandler, handler_B, handler_A, handler_B, handler_C, tailHandler]"
proof -
  have h: "(-7::int) \<le> -2" by simp
  have r: "list_all recognized [handler_B]" by (simp add: recognized_examples)
  from negative_position_is_head[OF invariant_pipeline_ABC h, of "[handler_B]"] r
  obtain p' where "ContextAt (-7) pipeline_ABC = Inr (Some (head pipeline_ABC))"
    and "AddHandler (-7) [handler_B] pipeline_ABC = Inr p'"
    and "handlers p' = hd (handlers pipeline_ABC) # [handler_B] @ tl (handlers pipeline_ABC)"
    by blast
  then show ?thesis
    using h by (simp add: invariant_pipeline_ABC handlers_pipeline_ABC)
qed

text \<open>
  C3. On a pipeline of size \<open>n\<close> and with handlers that pass \<open>checkHandler\<close>:
  \<open>AddHandler\<close> at -1 and at \<open>n - 1\<close> is \<open>AddLast\<close>; at a position of \<open>n\<close> or more it panics
  with the configuration error for the position and leaves the pipeline as it was; at a
  position from 0 to \<open>n - 2\<close> it inserts after the context reached from the head by
  \<open>position\<close> links (the one that \<open>ContextAt position\<close> returns), the new contexts in the
  order of the handlers.
\<close>

theorem AddHandler_by_position:
  assumes "invariant p" and "list_all recognized hs"
  shows "AddHandler (-1) hs p = AddLast hs p \<and>
         AddHandler (size p - 1) hs p = AddLast hs p \<and>
         (size p \<le> position \<longrightarrow>
            AddHandler position hs p = Inl (InvalidPosition position, p) \<and>
            configuration_error (InvalidPosition position)) \<and>
         (0 \<le> position \<and> position < size p - 1 \<longrightarrow>
            (\<exists>p'. AddHandler position hs p = Inr p' \<and>
                  ContextAt position p = Inr (Some (chain p ! nat position)) \<and>
                  chain p' = take (Suc (nat position)) (chain p)
                             @ [length (nodes p) ..< length (nodes p) + length hs]
                             @ drop (Suc (nat position)) (chain p) \<and>
                  handlers p' = take (Suc (nat position)) (handlers p) @ hs
                             @ drop (Suc (nat position)) (handlers p) \<and>
                  size p' = size p + int (length hs)))"
proof -
  have ch: "is_chain p (chain p)" using assms(1) by (rule invariant_chain)
  have sz: "2 \<le> size p" using is_chain_length[OF ch] by simp
  note ok = checkHandler_ok[OF assms(2)]
  have last1: "AddHandler (-1) hs p = AddLast hs p"
    using sz by (simp add: AddHandler_def ok AssertIf_def)
  have last2: "AddHandler (size p - 1) hs p = AddLast hs p"
    by (simp add: AddHandler_def ok AssertIf_def)
  have bad: "size p \<le> position \<longrightarrow>
            AddHandler position hs p = Inl (InvalidPosition position, p) \<and>
            configuration_error (InvalidPosition position)"
    by (simp add: AddHandler_def ok AssertIf_def)
  have mid: "0 \<le> position \<and> position < size p - 1 \<longrightarrow>
            (\<exists>p'. AddHandler position hs p = Inr p' \<and>
                  ContextAt position p = Inr (Some (chain p ! nat position)) \<and>
                  chain p' = take (Suc (nat position)) (chain p)
                             @ [length (nodes p) ..< length (nodes p) + length hs]
                             @ drop (Suc (nat position)) (chain p) \<and>
                  handlers p' = take (Suc (nat position)) (handlers p) @ hs
                             @ drop (Suc (nat position)) (handlers p) \<and>
                  size p' = size p + int (length hs))"
  proof
    assume pos: "0 \<le> position \<and> position < size p - 1"
    then have "position \<noteq> -1" "position < size p - 1" "0 \<le> position" "position < size p"
      by auto
    from AddHandler_middle[OF assms this(1,2)] ContextAt_chain(1)[OF ch this(3,4)]
    show "\<exists>p'. AddHandler position hs p = Inr p' \<and>
                  ContextAt position p = Inr (Some (chain p ! nat position)) \<and>
                  chain p' = take (Suc (nat position)) (chain p)
                             @ [length (nodes p) ..< length (nodes p) + length hs]
                             @ drop (Suc (nat position)) (chain p) \<and>
                  handlers p' = take (Suc (nat position)) (handlers p) @ hs
                             @ drop (Suc (nat position)) (handlers p) \<and>
                  size p' = size p + int (length hs)"
      by (auto simp: extends_def)
  qed
  show ?thesis by (rule conjI[OF last1 conjI[OF last2 conjI[OF bad mid]]])
qed

theorem AddHandler_by_position_witness:
  "invariant pipeline_ABC \<and> list_all recognized [handler_B, handler_A] \<and>
   AddHandler (-1) [handler_B, handler_A] pipeline_ABC = AddLast [handler_B, handler_A] pipeline_ABC \<and>
   AddHandler 4 [handler_B, handler_A] pipeline_ABC = AddLast [handler_B, handler_A] pipeline_ABC \<and>
   AddHandler 5 [handler_B, handler_A] pipeline_ABC = Inl (InvalidPosition 5, pipeline_ABC) \<and>
   handlers (state_of (AddHandler 2 [handler_B, handler_A] pipeline_ABC)) =
     [headHandler, handler_A, handler_B, handler_B, handler_A, handler_C, tailHandler]"
proof -
  have r: "list_all recognized [handler_B, handler_A]" by (simp add: recognized_examples)
  have s: "size pipeline_ABC = 5" by (simp add: pipeline_ABC_eq)
  note t = AddHandler_by_position[OF invariant_pipeline_ABC r]
  from t[of 2] s obtain p' where "AddHandler 2 [handler_B, handler_A] pipeline_ABC = Inr p'"
    and "handlers p' = take (Suc (nat 2)) (handlers pipeline_ABC) @ [handler_B, handler_A]
                             @ drop (Suc (nat 2)) (handlers pipeline_ABC)"
    by auto
  then have "handlers (state_of (AddHandler 2 [handler_B, handler_A] pipeline_ABC)) =
     [headHandler, handler_A, handler_B, handler_B, handler_A, handler_C, tailHandler]"
    by (simp add: handlers_pipeline_ABC numeral_3_eq_3)
  then show ?thesis
    using t[of 5] s r by (simp add: invariant_pipeline_ABC)
qed

text \<open>
  C6. \<open>AddFirst\<close>, \<open>AddLast\<close> and \<open>AddHandler\<close> preserve the invariant, whatever the handlers
  and the position, whether they return or panic; \<open>NewPipelineWith\<close> establishes it. Under
  the invariant the size is at least 2 and is the number of contexts from head to tail,
  the first of them is the head and the last the tail, and for neighbours \<open>a\<close>, \<open>b\<close> in
  the chain \<^verbatim>\<open>a.next == b\<close> and \<^verbatim>\<open>b.prev == a\<close>.
\<close>

theorem invariant_preserved:
  assumes "invariant p"
  shows "invariant NewPipelineWith \<and>
         invariant (state_of (AddFirst hs p)) \<and>
         invariant (state_of (AddLast hs p)) \<and>
         invariant (state_of (AddHandler position hs p)) \<and>
         2 \<le> size p \<and> size p = int (length (chain p)) \<and>
         hd (chain p) = head p \<and> last (chain p) = tail p \<and>
         (\<forall>i. Suc i < length (chain p) \<longrightarrow>
            next (nodes p ! (chain p ! i)) = Some (chain p ! Suc i) \<and>
            prev (nodes p ! (chain p ! Suc i)) = Some (chain p ! i))"
proof -
  have ch: "is_chain p (chain p)" using assms by (rule invariant_chain)
  have sz: "2 \<le> size p" "size p = int (length (chain p))"
    using is_chain_length[OF ch] by simp_all
  have first: "invariant (state_of (AddFirst hs p))"
  proof (cases "list_all recognized hs")
    case True
    from AddFirst_chain[OF assms True] show ?thesis by auto
  next
    case False
    from checkHandler_fails[OF False, of p] show ?thesis
      using assms by (auto simp: AddFirst_def)
  qed
  have last: "invariant (state_of (AddLast hs p))"
  proof (cases "list_all recognized hs")
    case True
    from AddLast_chain[OF assms True] show ?thesis by auto
  next
    case False
    from checkHandler_fails[OF False, of p] show ?thesis
      using assms by (auto simp: AddLast_def)
  qed
  have at: "invariant (state_of (AddHandler position hs p))"
  proof (cases "list_all recognized hs")
    case False
    from checkHandler_fails[OF False, of p] show ?thesis
      using assms by (auto simp: AddHandler_def)
  next
    case True
    note ok = checkHandler_ok[OF True]
    consider "size p \<le> position" | "position < size p" "position = -1 \<or> position = size p - 1"
      | "position \<noteq> -1" "position < size p - 1" by linarith
    then show ?thesis
    proof cases
      case 1
      then show ?thesis using assms by (simp add: AddHandler_def ok AssertIf_def)
    next
      case 2
      then have "AddHandler position hs p = AddLast hs p"
        by (auto simp: AddHandler_def ok AssertIf_def)
      then show ?thesis using last by simp
    next
      case 3
      from AddHandler_middle[OF assms True 3] show ?thesis by auto
    qed
  qed
  have fw: "path next (nodes p) (Some (head p)) (chain p) None"
    and bw: "path prev (nodes p) (Some (tail p)) (rev (chain p)) None"
    using ch by (simp_all add: is_chain_def)
  have links: "next (nodes p ! (chain p ! i)) = Some (chain p ! Suc i) \<and>
            prev (nodes p ! (chain p ! Suc i)) = Some (chain p ! i)" if i: "Suc i < length (chain p)" for i
  proof -
    let ?n = "length (chain p)"
    have "next (nodes p ! (chain p ! i)) = Some (chain p ! Suc i)"
      using path_nth[OF fw i] .
    moreover have "prev (nodes p ! (rev (chain p) ! (?n - Suc (Suc i)))) = Some (rev (chain p) ! Suc (?n - Suc (Suc i)))"
      using i by (intro path_nth[OF bw]) auto
    then have "prev (nodes p ! (chain p ! Suc i)) = Some (chain p ! i)"
      using i by (simp add: rev_nth Suc_diff_Suc)
    ultimately show ?thesis by simp
  qed
  show ?thesis
    using invariant_NewPipelineWith first last at sz invariant_ends(3,4)[OF assms] links
    by blast
qed

theorem invariant_preserved_witness:
  "invariant pipeline_ABC \<and>
   invariant (state_of (AddFirst [handler_B] pipeline_ABC)) \<and>
   invariant (state_of (AddLast [not_a_handler] pipeline_ABC)) \<and>
   invariant (state_of (AddHandler 2 [handler_A, handler_C] pipeline_ABC)) \<and>
   size pipeline_ABC = int (length (chain pipeline_ABC))"
  using invariant_preserved[OF invariant_pipeline_ABC] invariant_pipeline_ABC
  by simp

lemma list_all_recognized_iff: "list_all recognized hs \<longleftrightarrow> (\<forall>h \<in> set hs. implements h \<noteq> {})"
  by (simp add: list_all_iff recognized_iff)

lemma butlast_last_take_drop:
  assumes "2 \<le> length xs"
  shows "butlast xs @ ys @ [last xs] = take (length xs - 1) xs @ ys @ drop (length xs - 1) xs"
proof -
  have ne: "xs \<noteq> []" using assms by auto
  have "drop (length xs - 1) xs = [last xs]"
    using ne by (metis append_butlast_last_id append_eq_conv_conj length_butlast)
  then show ?thesis by (simp add: butlast_conv_take)
qed

text \<open>
  C4, as the code has it. If a handler of the batch implements none of the six interfaces,
  \<open>AddFirst\<close>, \<open>AddLast\<close> and \<open>AddHandler\<close> (at any position) panic with the configuration
  error that carries the index and the type of the first such handler, and the pipeline
  is as before. If every handler implements one, \<open>AddFirst\<close> and \<open>AddLast\<close> link each of
  them in and add their number to the size, and so does \<open>AddHandler\<close> at a position below
  the size.
\<close>

theorem checkHandler_gates_batch:
  shows "((\<exists>h \<in> set hs. implements h = {}) \<longrightarrow>
           (\<exists>k < length hs. implements (hs ! k) = {} \<and> (\<forall>j < k. implements (hs ! j) \<noteq> {}) \<and>
              configuration_error (UnrecognizedHandler k (type_name (hs ! k))) \<and>
              AddFirst hs p = Inl (UnrecognizedHandler k (type_name (hs ! k)), p) \<and>
              AddLast hs p = Inl (UnrecognizedHandler k (type_name (hs ! k)), p) \<and>
              AddHandler position hs p = Inl (UnrecognizedHandler k (type_name (hs ! k)), p))) \<and>
         ((\<forall>h \<in> set hs. implements h \<noteq> {}) \<and> invariant p \<longrightarrow>
           (\<exists>p1 p2. AddFirst hs p = Inr p1 \<and>
              handlers p1 = hd (handlers p) # rev hs @ tl (handlers p) \<and>
              size p1 = size p + int (length hs) \<and>
              AddLast hs p = Inr p2 \<and>
              handlers p2 = butlast (handlers p) @ hs @ [last (handlers p)] \<and>
              size p2 = size p + int (length hs)) \<and>
           (position < size p \<longrightarrow>
              (\<exists>p3 k. AddHandler position hs p = Inr p3 \<and> 0 < k \<and> k < length (handlers p) \<and>
                 handlers p3 = take k (handlers p) @ hs @ drop k (handlers p) \<and>
                 size p3 = size p + int (length hs))))"
proof (intro conjI impI)
  assume "\<exists>h \<in> set hs. implements h = {}"
  then have bad: "\<not> list_all recognized hs" by (simp add: list_all_recognized_iff)
  from checkHandler_fails[OF bad, of p] obtain k where k: "k < length hs" "\<not> recognized (hs ! k)"
    "\<forall>j < k. recognized (hs ! j)"
    "checkHandler hs p = Inl (UnrecognizedHandler k (type_name (hs ! k)), p)"
    by blast
  have "implements (hs ! k) = {}" "\<forall>j < k. implements (hs ! j) \<noteq> {}"
    using k(2,3) by (simp_all add: recognized_iff)
  moreover have "AddFirst hs p = Inl (UnrecognizedHandler k (type_name (hs ! k)), p)"
    "AddLast hs p = Inl (UnrecognizedHandler k (type_name (hs ! k)), p)"
    "AddHandler position hs p = Inl (UnrecognizedHandler k (type_name (hs ! k)), p)"
    by (simp_all add: AddFirst_def AddLast_def AddHandler_def k(4))
  ultimately show "\<exists>k < length hs. implements (hs ! k) = {} \<and> (\<forall>j < k. implements (hs ! j) \<noteq> {}) \<and>
              configuration_error (UnrecognizedHandler k (type_name (hs ! k))) \<and>
              AddFirst hs p = Inl (UnrecognizedHandler k (type_name (hs ! k)), p) \<and>
              AddLast hs p = Inl (UnrecognizedHandler k (type_name (hs ! k)), p) \<and>
              AddHandler position hs p = Inl (UnrecognizedHandler k (type_name (hs ! k)), p)"
    using k(1) by auto
next
  assume a: "(\<forall>h \<in> set hs. implements h \<noteq> {}) \<and> invariant p"
  then have ok: "list_all recognized hs" and inv: "invariant p"
    by (simp_all add: list_all_recognized_iff)
  from AddFirst_chain[OF inv ok] AddLast_chain[OF inv ok]
  show "\<exists>p1 p2. AddFirst hs p = Inr p1 \<and>
              handlers p1 = hd (handlers p) # rev hs @ tl (handlers p) \<and>
              size p1 = size p + int (length hs) \<and>
              AddLast hs p = Inr p2 \<and>
              handlers p2 = butlast (handlers p) @ hs @ [last (handlers p)] \<and>
              size p2 = size p + int (length hs)"
    by (auto simp: extends_def)
next
  assume a: "(\<forall>h \<in> set hs. implements h \<noteq> {}) \<and> invariant p" and pos: "position < size p"
  then have ok: "list_all recognized hs" and inv: "invariant p"
    by (simp_all add: list_all_recognized_iff)
  have ch: "is_chain p (chain p)" using inv by (rule invariant_chain)
  have len: "size p = int (length (handlers p))" "2 \<le> length (handlers p)"
    using is_chain_length[OF ch] by (simp_all add: handlers_def)
  show "\<exists>p3 k. AddHandler position hs p = Inr p3 \<and> 0 < k \<and> k < length (handlers p) \<and>
                 handlers p3 = take k (handlers p) @ hs @ drop k (handlers p) \<and>
                 size p3 = size p + int (length hs)"
  proof (cases "position = -1 \<or> position = size p - 1")
    case True
    then have eq: "AddHandler position hs p = AddLast hs p"
      using pos by (auto simp: AddHandler_def checkHandler_ok[OF ok] AssertIf_def)
    from AddLast_chain[OF inv ok] obtain p2 where
      p2: "AddLast hs p = Inr p2" "handlers p2 = butlast (handlers p) @ hs @ [last (handlers p)]"
      "extends p (length hs) p2"
      by blast
    have "handlers p2 = take (length (handlers p) - 1) (handlers p) @ hs
                        @ drop (length (handlers p) - 1) (handlers p)"
      using p2(2) butlast_last_take_drop[OF len(2)] by simp
    moreover have "0 < length (handlers p) - 1" "length (handlers p) - 1 < length (handlers p)"
      using len(2) by auto
    moreover have "AddHandler position hs p = Inr p2" "size p2 = size p + int (length hs)"
      using eq p2(1,3) by (simp_all add: extends_def)
    ultimately show ?thesis by blast
  next
    case False
    then have "position \<noteq> -1" "position < size p - 1" using pos by auto
    from AddHandler_middle[OF inv ok this] obtain p3 where
      p3: "AddHandler position hs p = Inr p3"
      "handlers p3 = take (Suc (nat position)) (handlers p) @ hs @ drop (Suc (nat position)) (handlers p)"
      "extends p (length hs) p3"
      by blast
    have "Suc (nat position) < length (handlers p)"
      using \<open>position < size p - 1\<close> len by (cases "0 \<le> position") auto
    moreover have "0 < Suc (nat position)" by simp
    moreover have "size p3 = size p + int (length hs)" using p3(3) by (simp add: extends_def)
    ultimately show ?thesis using p3(1,2) by blast
  qed
qed

theorem checkHandler_gates_batch_witness:
  "implements not_a_handler = {} \<and>
   AddLast [handler_A, not_a_handler, handler_B] pipeline_ABC = Inl (UnrecognizedHandler 1 ''int'', pipeline_ABC) \<and>
   implements handler_B \<noteq> {} \<and> invariant pipeline_ABC \<and> (3::int) < size pipeline_ABC \<and>
   size (state_of (AddHandler 3 [handler_B] pipeline_ABC)) = 6"
proof -
  have e: "\<exists>h \<in> set [handler_A, not_a_handler, handler_B]. implements h = {}"
    by (simp add: not_a_handler_def)
  have i: "implements handler_A \<noteq> {}" "implements not_a_handler = {}" "implements handler_B \<noteq> {}"
    by (simp_all add: handler_A_def handler_B_def not_a_handler_def)
  from checkHandler_gates_batch[of "[handler_A, not_a_handler, handler_B]" pipeline_ABC 0] e
  obtain k where k: "k < 3" "implements ([handler_A, not_a_handler, handler_B] ! k) = {}"
    "AddLast [handler_A, not_a_handler, handler_B] pipeline_ABC
      = Inl (UnrecognizedHandler k (type_name ([handler_A, not_a_handler, handler_B] ! k)), pipeline_ABC)"
    by auto
  have "k = 0 \<or> k = 1 \<or> k = 2" using k(1) by arith
  then have "k = 1" using k(2) i by auto
  then have first: "AddLast [handler_A, not_a_handler, handler_B] pipeline_ABC = Inl (UnrecognizedHandler 1 ''int'', pipeline_ABC)"
    using k(3) by (simp add: not_a_handler_def)
  have s: "size pipeline_ABC = 5" by (simp add: pipeline_ABC_eq)
  from checkHandler_gates_batch[of "[handler_B]" pipeline_ABC 3] i(3) invariant_pipeline_ABC s
  have "size (state_of (AddHandler 3 [handler_B] pipeline_ABC)) = 6"
    by auto
  then show ?thesis using first i(2,3) invariant_pipeline_ABC s by simp
qed

text \<open>
  The claim C4 as it is written fails for \<open>AddHandler\<close>: a batch of valid handlers is not
  linked in when the position is the size or more.
\<close>

theorem valid_batch_rejected_by_position:
  "implements handler_A \<noteq> {} \<and> invariant NewPipelineWith \<and>
   AddHandler 2 [handler_A] NewPipelineWith = Inl (InvalidPosition 2, NewPipelineWith) \<and>
   size (state_of (AddHandler 2 [handler_A] NewPipelineWith)) = size NewPipelineWith"
  by (simp add: invariant_NewPipelineWith AddHandler_def checkHandler_def Assert_def
      recognized_examples AssertIf_def NewPipelineWith_fields) (simp add: handler_A_def)

lemma forwards_instrumented [simp]: "forwards cap instrumented h"
  by (simp add: forwards_def instrumented_def)

lemma instrumented_order:
  assumes "invariant q"
  shows "\<exists>rd wr. FireChannelRead instrumented q m = Some rd \<and> handlers_of q rd = handlers q \<and>
           FireChannelWrite instrumented q m = Some wr \<and> handlers_of q wr = rev (handlers q)"
proof -
  from FireChannelRead_chain[OF assms, of instrumented m]
  have "FireChannelRead instrumented q m = Some (chain q)" by auto
  moreover from FireChannelWrite_chain[OF assms, of instrumented m]
  have "FireChannelWrite instrumented q m = Some (rev (chain q))" by auto
  ultimately show ?thesis by (simp add: handlers_def handlers_of_rev)
qed

text \<open>
  C1. On a pipeline that satisfies the invariant and for every message and every
  behaviour of the handlers, \<open>FireChannelRead\<close> visits the head sentinel first and then
  the contexts in the order of the chain, \<open>FireChannelWrite\<close> visits the tail sentinel
  first and then the contexts in the reverse order of the chain; the traversal stops
  where a handler stops it, and visits the whole chain if the handlers pass the message
  on. With instrumented handlers \<open>a\<close>, \<open>b\<close>, \<open>c\<close> added by \<open>AddLast\<close> to a fresh pipeline, the
  handlers visited are head, \<open>a\<close>, \<open>b\<close>, \<open>c\<close>, tail for a read and tail, \<open>c\<close>, \<open>b\<close>, \<open>a\<close>, head
  for a write.
\<close>

theorem fire_order:
  assumes "invariant p"
  shows "(\<exists>rd. FireChannelRead lg p m = Some rd \<and> rd \<noteq> [] \<and> hd rd = head p \<and>
            prefix rd (chain p) \<and>
            ((\<forall>r \<in> set (chain p). forwards InboundHandler lg (handler (nodes p ! r))) \<longrightarrow>
               rd = chain p)) \<and>
         (\<exists>wr. FireChannelWrite lg p m = Some wr \<and> wr \<noteq> [] \<and> hd wr = tail p \<and>
            prefix wr (rev (chain p)) \<and>
            ((\<forall>r \<in> set (chain p). forwards OutboundHandler lg (handler (nodes p ! r))) \<longrightarrow>
               wr = rev (chain p))) \<and>
         (list_all recognized [a, b, c] \<longrightarrow>
            (\<exists>q rd wr. AddLast [a, b, c] NewPipelineWith = Inr q \<and>
               FireChannelRead instrumented q m = Some rd \<and>
               handlers_of q rd = [headHandler, a, b, c, tailHandler] \<and>
               FireChannelWrite instrumented q m = Some wr \<and>
               handlers_of q wr = [tailHandler, c, b, a, headHandler]))"
proof (intro conjI impI)
  from FireChannelRead_chain[OF assms, of lg m]
  show "\<exists>rd. FireChannelRead lg p m = Some rd \<and> rd \<noteq> [] \<and> hd rd = head p \<and>
            prefix rd (chain p) \<and>
            ((\<forall>r \<in> set (chain p). forwards InboundHandler lg (handler (nodes p ! r))) \<longrightarrow>
               rd = chain p)"
    by blast
next
  from FireChannelWrite_chain[OF assms, of lg m]
  show "\<exists>wr. FireChannelWrite lg p m = Some wr \<and> wr \<noteq> [] \<and> hd wr = tail p \<and>
            prefix wr (rev (chain p)) \<and>
            ((\<forall>r \<in> set (chain p). forwards OutboundHandler lg (handler (nodes p ! r))) \<longrightarrow>
               wr = rev (chain p))"
    by blast
next
  assume ok: "list_all recognized [a, b, c]"
  from AddLast_chain[OF invariant_NewPipelineWith ok] obtain q where
    q: "AddLast [a, b, c] NewPipelineWith = Inr q" "invariant q"
    "handlers q = butlast (handlers NewPipelineWith) @ [a, b, c] @ [last (handlers NewPipelineWith)]"
    by blast
  have hq: "handlers q = [headHandler, a, b, c, tailHandler]"
    using q(3) by (simp add: handlers_NewPipelineWith)
  from instrumented_order[OF q(2), of m] obtain rd wr where
    "FireChannelRead instrumented q m = Some rd" "handlers_of q rd = handlers q"
    "FireChannelWrite instrumented q m = Some wr" "handlers_of q wr = rev (handlers q)"
    by blast
  then show "\<exists>q rd wr. AddLast [a, b, c] NewPipelineWith = Inr q \<and>
               FireChannelRead instrumented q m = Some rd \<and>
               handlers_of q rd = [headHandler, a, b, c, tailHandler] \<and>
               FireChannelWrite instrumented q m = Some wr \<and>
               handlers_of q wr = [tailHandler, c, b, a, headHandler]"
    using q(1) hq by auto
qed

theorem fire_order_witness:
  "invariant pipeline_ABC \<and> list_all recognized [handler_A, handler_B, handler_C] \<and>
   FireChannelRead instrumented pipeline_ABC ''ping'' = Some [0, 2, 3, 4, 1] \<and>
   FireChannelWrite instrumented pipeline_ABC ''ping'' = Some [1, 4, 3, 2, 0] \<and>
   handlers_of pipeline_ABC [0, 2, 3, 4, 1] = [headHandler, handler_A, handler_B, handler_C, tailHandler]"
proof -
  have f: "\<forall>r \<in> set (chain pipeline_ABC). forwards InboundHandler instrumented (handler (nodes pipeline_ABC ! r))"
    "\<forall>r \<in> set (chain pipeline_ABC). forwards OutboundHandler instrumented (handler (nodes pipeline_ABC ! r))"
    by simp_all
  from fire_order[OF invariant_pipeline_ABC, of instrumented "''ping''"] f
  have "FireChannelRead instrumented pipeline_ABC ''ping'' = Some (chain pipeline_ABC)"
    "FireChannelWrite instrumented pipeline_ABC ''ping'' = Some (rev (chain pipeline_ABC))"
    by auto
  moreover have "handlers_of pipeline_ABC [0, 2, 3, 4, 1] = [headHandler, handler_A, handler_B, handler_C, tailHandler]"
    using handlers_pipeline_ABC by (simp add: handlers_def chain_pipeline_ABC)
  ultimately show ?thesis
    by (simp add: chain_pipeline_ABC invariant_pipeline_ABC recognized_examples)
qed

text \<open>
  C5. \<open>ServeChannel\<close> attaches once. On a pipeline without a channel it records the channel
  and tells it to serve. On a pipeline with a channel it panics with the configuration
  error, whatever channel is passed, and leaves the pipeline, its channel and the
  channels told to serve as they were; so a second call after a first one fails and the
  channel of the first call stays.
\<close>

theorem ServeChannel_once:
  "(channel p = None \<longrightarrow>
      ServeChannel (Some c) p served = Inr (p\<lparr>channel := Some c\<rparr>, served @ [c])) \<and>
   (channel p \<noteq> None \<longrightarrow>
      ServeChannel ch p served = Inl (AlreadyAttached, p, served) \<and>
      configuration_error AlreadyAttached) \<and>
   (channel p = None \<longrightarrow>
      (\<exists>p1 served1. ServeChannel (Some c) p served = Inr (p1, served1) \<and>
         ServeChannel ch p1 served1 = Inl (AlreadyAttached, p1, served1) \<and>
         Channel p1 = Some c))"
  by (auto simp: ServeChannel_def AssertIf_def Channel_def)

theorem ServeChannel_once_witness:
  "channel NewPipelineWith = None \<and>
   ServeChannel (Some 7) NewPipelineWith [] = Inr (NewPipelineWith\<lparr>channel := Some 7\<rparr>, [7]) \<and>
   channel (NewPipelineWith\<lparr>channel := Some 7\<rparr>) \<noteq> None \<and>
   ServeChannel (Some 8) (NewPipelineWith\<lparr>channel := Some 7\<rparr>) [7]
     = Inl (AlreadyAttached, NewPipelineWith\<lparr>channel := Some 7\<rparr>, [7])"
  using ServeChannel_once[of NewPipelineWith 7 "[]" "Some 8"]
    ServeChannel_once[of "NewPipelineWith\<lparr>channel := Some 7\<rparr>" 7 "[7]" "Some 8"]
  by (simp add: NewPipelineWith_fields)

text \<open>
  C7. \<open>AsException\<close> returns nil for nil, an \<open>Exception\<close> as it is, an error wrapped with the
  given stack, and any other value wrapped, with the given stack, as a synthetic error:
  the error that \<^verbatim>\<open>fmt.Errorf\<close> makes, whose message is the rendering of the value under
  \<^verbatim>\<open>%v\<close>. Applied to its own result, with any stack, it returns that result.
\<close>

theorem AsException_cases:
  "AsException NilValue st = None \<and>
   AsException (AnException x) st = Some x \<and>
   AsException (AnError err) st = Some (Wrapped \<lparr>error = err, stack = st\<rparr>) \<and>
   AsException (Other v) st = Some (Wrapped \<lparr>error = Errorf_v v, stack = st\<rparr>) \<and>
   AsException (Other v) st
     = Some (Wrapped \<lparr>error = GoError ''*errors.errorString'' v, stack = st\<rparr>) \<and>
   error_text (Errorf_v v) = v \<and>
   dynamic_type (Errorf_v v) = ''*errors.errorString'' \<and>
   AsException (as_any (AsException e st)) st' = AsException e st"
  by (cases e) (simp_all add: Errorf_v_def)

lemma accept_loop_count:
  "accept_loop as calls = (r, calls') \<Longrightarrow> count_list calls' CallListen = count_list calls CallListen"
  by (induction as calls rule: accept_loop.induct) (auto split: if_splits)

text \<open>
  C8. \<open>Sync\<close> on a listener that has an acceptor returns the error of the duplicate call at
  once: it calls neither \<open>ParseOptions\<close> nor \<open>Listen\<close> nor anything else and leaves the
  listener as it is. A \<open>Sync\<close> whose \<open>Listen\<close> succeeds leaves the acceptor in the listener
  (however it ends, and also while it is in the accept loop), having called \<open>Listen\<close> once;
  every later \<open>Sync\<close> is such a duplicate call.
\<close>

theorem Sync_single_use:
  "(acceptor l \<noteq> None \<longrightarrow> Sync w l = (Returned (Some duplicate_call), l, [])) \<and>
   (acceptor l = None \<and> snd (ParseOptions w) = None \<and> Listen w = (Some a, None) \<longrightarrow>
      (\<exists>r l1 calls. Sync w l = (r, l1, calls) \<and> acceptor l1 = Some a \<and>
         count_list calls CallListen = 1 \<and>
         Sync w' l1 = (Returned (Some duplicate_call), l1, [])))"
proof (intro conjI impI)
  assume "acceptor l \<noteq> None"
  then show "Sync w l = (Returned (Some duplicate_call), l, [])"
    by (auto simp: Sync_def)
next
  assume a: "acceptor l = None \<and> snd (ParseOptions w) = None \<and> Listen w = (Some a, None)"
  obtain opts where po: "ParseOptions w = (opts, None)"
    using a by (cases "ParseOptions w") auto
  obtain r calls where al: "accept_loop (Accepts w) [CallParseOptions, CallListen] = (r, calls)"
    by (cases "accept_loop (Accepts w) [CallParseOptions, CallListen]") auto
  let ?l1 = "l\<lparr>options := Some opts, acceptor := Some a\<rparr>"
  have "Sync w l = (r, ?l1, calls)"
    using a po al by (simp add: Sync_def)
  moreover have "acceptor ?l1 = Some a" by simp
  moreover have "count_list calls CallListen = 1"
    using accept_loop_count[OF al] by simp
  moreover have "Sync w' ?l1 = (Returned (Some duplicate_call), ?l1, [])"
    by (simp add: Sync_def)
  ultimately show "\<exists>r l1 calls. Sync w l = (r, l1, calls) \<and> acceptor l1 = Some a \<and>
         count_list calls CallListen = 1 \<and>
         Sync w' l1 = (Returned (Some duplicate_call), l1, [])"
    by blast
qed

theorem Sync_single_use_witness:
  "acceptor \<lparr>url = ''tcp://127.0.0.1:0'', options = Some 0, acceptor = Some 3\<rparr> \<noteq> None \<and>
   Sync \<lparr>ParseOptions = (0, None), Listen = (Some 4, None), Accepts = []\<rparr>
        \<lparr>url = ''tcp://127.0.0.1:0'', options = Some 0, acceptor = Some 3\<rparr>
     = (Returned (Some duplicate_call),
        \<lparr>url = ''tcp://127.0.0.1:0'', options = Some 0, acceptor = Some 3\<rparr>, []) \<and>
   Sync \<lparr>ParseOptions = (0, None), Listen = (Some 3, None), Accepts = [Accepted 9 False None]\<rparr>
        \<lparr>url = ''tcp://127.0.0.1:0'', options = None, acceptor = None\<rparr>
     = (Blocked, \<lparr>url = ''tcp://127.0.0.1:0'', options = Some 0, acceptor = Some 3\<rparr>,
        [CallParseOptions, CallListen, CallAccept, CallServeTransport 9, CallAccept])"
  using Sync_single_use[of "\<lparr>url = ''tcp://127.0.0.1:0'', options = Some 0, acceptor = Some 3\<rparr>"
      "\<lparr>ParseOptions = (0, None), Listen = (Some 4, None), Accepts = []\<rparr>" 4
      "\<lparr>ParseOptions = (0, None), Listen = (Some 4, None), Accepts = []\<rparr>"]
    Sync_single_use[of "\<lparr>url = ''tcp://127.0.0.1:0'', options = None, acceptor = None\<rparr>"
      "\<lparr>ParseOptions = (0, None), Listen = (Some 3, None), Accepts = [Accepted 9 False None]\<rparr>" 3
      "\<lparr>ParseOptions = (0, None), Listen = (Some 4, None), Accepts = []\<rparr>"]
  by (simp add: Sync_def)

end
